theory Spec2Isabelle
  imports Main
begin

section \<open>Service definitions and load-time errors\<close>

text \<open>
  A service definition is a subclass of \<^verbatim>\<open>Service\<close> with the class attributes
  \<^verbatim>\<open>name\<close> and \<^verbatim>\<open>dependencies\<close> (a list of service names). The other attributes
  (image, ports, env) play no part in loading or scheduling.

  \<^verbatim>\<open>load_definitions\<close> rewrites \<^verbatim>\<open>dependencies\<close> into references to the classes stored in
  \<^verbatim>\<open>all_by_name\<close>. Since \<^verbatim>\<open>all_by_name[service.name] = service\<close>, the reference to a class is
  its key in \<^verbatim>\<open>all_by_name\<close>: the model keeps the name as the reference and follows it
  through the registry.
\<close>

record service =
  name :: string
  dependencies :: "string list"

text \<open>
  \<^verbatim>\<open>ServiceLoadError\<close> is raised with four different messages; the model keeps the kind
  of message and its parameters. The other exceptions are Python's own.
\<close>

datatype load_failure =
    NoServicesDefined
  | ExcludedDependency string string
  | RepeatedServiceName "string list"
  | CircularDependency

datatype error =
    ServiceLoadError load_failure
  | KeyError string
  | TypeError
  | AttributeError

subsection \<open>Dictionaries\<close>

text \<open>
  A Python dict keeps its keys in insertion order; assigning to a key that is present
  replaces the value in place. \<^verbatim>\<open>all_by_name\<close> and the \<^verbatim>\<open>Counter\<close> are association lists
  written through \<open>dict_set\<close> only.
\<close>

type_synonym registry = "(string \<times> service) list"

fun dict_set :: "'k \<Rightarrow> 'v \<Rightarrow> ('k \<times> 'v) list \<Rightarrow> ('k \<times> 'v) list" where
  "dict_set k v [] = [(k, v)]"
| "dict_set k v ((k', v') # d) =
     (if k' = k then (k, v) # d else (k', v') # dict_set k v d)"

text \<open>
  A \<^verbatim>\<open>Counter\<close> reads a missing key as 0, and \<^verbatim>\<open>name_counter[key] += 1\<close> reads the
  count and stores the incremented one.
\<close>

definition counter_get :: "(string \<times> nat) list \<Rightarrow> string \<Rightarrow> nat" where
  "counter_get name_counter key = (case map_of name_counter key of None \<Rightarrow> 0 | Some c \<Rightarrow> c)"

definition counter_incr :: "string \<Rightarrow> (string \<times> nat) list \<Rightarrow> (string \<times> nat) list" where
  "counter_incr key name_counter = dict_set key (counter_get name_counter key + 1) name_counter"

section \<open>ServiceCollection.load\_definitions\<close>

text \<open>
  The scan of \<^verbatim>\<open>load_definitions\<close>:
  \<^verbatim>\<open>
  for service in services:
      if service.name not in exclude:
          self.all_by_name[service.name] = service
          excluded_deps = [dep for dep in service.dependencies if dep in exclude]
          if excluded_deps:
              raise ServiceLoadError("{:s} is to be excluded, but {:s} depends on it".format(
                  excluded_deps[0], service.name))
      name_counter[service.name] += 1
  \<close>
  The result is the exception raised, if any, with \<^verbatim>\<open>all_by_name\<close> and the counter as the
  loop left them.
\<close>

fun scan_definitions ::
  "string list \<Rightarrow> service list \<Rightarrow> registry \<Rightarrow> (string \<times> nat) list
     \<Rightarrow> error option \<times> registry \<times> (string \<times> nat) list" where
  "scan_definitions exclude [] all_by_name name_counter = (None, all_by_name, name_counter)"
| "scan_definitions exclude (service # services) all_by_name name_counter =
     (if name service \<notin> set exclude then
        (let all_by_name' = dict_set (name service) service all_by_name;
             excluded_deps = filter (\<lambda>dep. dep \<in> set exclude) (dependencies service)
         in if excluded_deps \<noteq> []
            then (Some (ServiceLoadError (ExcludedDependency (hd excluded_deps) (name service))),
                  all_by_name', name_counter)
            else scan_definitions exclude services all_by_name'
                   (counter_incr (name service) name_counter))
      else scan_definitions exclude services all_by_name
             (counter_incr (name service) name_counter))"

text \<open>
  Dependency resolution:
  \<^verbatim>\<open>
  for service in self.all_by_name.values():
      dependencies = service.dependencies[:]
      service.dependencies = [self.all_by_name[dependency] for dependency in dependencies]
  \<close>
  The comprehension raises \<^verbatim>\<open>KeyError\<close> at the first name that is not a key of
  \<^verbatim>\<open>all_by_name\<close>. A resolved reference is the key itself, so a successful resolution
  leaves the model's registry as it is.
\<close>

fun resolve_dependencies :: "registry \<Rightarrow> service list \<Rightarrow> error option" where
  "resolve_dependencies all_by_name [] = None"
| "resolve_dependencies all_by_name (service # services) =
     (case filter (\<lambda>dependency. map_of all_by_name dependency = None) (dependencies service) of
        [] \<Rightarrow> resolve_dependencies all_by_name services
      | dependency # _ \<Rightarrow> Some (KeyError dependency))"

subsection \<open>check\_circular\_dependencies\<close>

text \<open>
  \<^verbatim>\<open>
  def go_up_dependencies(checked):
      nonlocal count
      count += 1
      for dependency in checked.dependencies:
          if dependency.name == start:
              raise ServiceLoadError("Circular dependency detected")
          if count == len(self.all_by_name):
              return
          go_up_dependencies(dependency)
  \<close>
  \<open>go_up_loop\<close> is the \<^verbatim>\<open>for\<close> loop of one call, from the dependencies still to visit
  and the current value of the shared counter; it returns the exception raised, if any,
  and the final value of the counter. The first argument bounds the depth of the nested
  calls: \<open>None\<close> means that the walk needed a deeper recursion than that.

  A dependency is a reference obtained from \<^verbatim>\<open>all_by_name\<close> during resolution, so the
  lookup of a dependency cannot fail once resolution has succeeded
  (\<open>resolve_dependencies\<close> returns the \<^verbatim>\<open>KeyError\<close> first); the branch for a missing key
  reports that same \<^verbatim>\<open>KeyError\<close>.
\<close>

fun go_up_loop ::
  "nat \<Rightarrow> registry \<Rightarrow> string \<Rightarrow> string list \<Rightarrow> nat \<Rightarrow> (error option \<times> nat) option" where
  "go_up_loop fuel all_by_name start [] count = Some (None, count)"
| "go_up_loop fuel all_by_name start (dependency # rest) count =
     (if dependency = start then Some (Some (ServiceLoadError CircularDependency), count)
      else if count = length all_by_name then Some (None, count)
      else case fuel of
          0 \<Rightarrow> None
        | Suc fuel' \<Rightarrow>
           (case map_of all_by_name dependency of
              None \<Rightarrow> Some (Some (KeyError dependency), count)
            | Some dep \<Rightarrow>
               (case go_up_loop fuel' all_by_name start (dependencies dep) (count + 1) of
                  None \<Rightarrow> None
                | Some (Some e, count') \<Rightarrow> Some (Some e, count')
                | Some (None, count') \<Rightarrow> go_up_loop fuel all_by_name start rest count')))"

definition go_up_dependencies ::
  "nat \<Rightarrow> registry \<Rightarrow> string \<Rightarrow> service \<Rightarrow> nat \<Rightarrow> (error option \<times> nat) option" where
  "go_up_dependencies fuel all_by_name start checked count =
     go_up_loop fuel all_by_name start (dependencies checked) (count + 1)"

text \<open>
  The loop over the origins: each walk starts with \<^verbatim>\<open>count = 0\<close>. The depth bound handed
  to each walk is the number of definitions.
\<close>

fun check_origins :: "registry \<Rightarrow> service list \<Rightarrow> error option option" where
  "check_origins all_by_name [] = Some None"
| "check_origins all_by_name (service # with_dependencies) =
     (case go_up_dependencies (length all_by_name) all_by_name (name service) service 0 of
        None \<Rightarrow> None
      | Some (Some e, _) \<Rightarrow> Some (Some e)
      | Some (None, _) \<Rightarrow> check_origins all_by_name with_dependencies)"

definition check_circular_dependencies :: "registry \<Rightarrow> error option option" where
  "check_circular_dependencies all_by_name =
     check_origins all_by_name (filter (\<lambda>x. dependencies x \<noteq> []) (map snd all_by_name))"

subsection \<open>load\_definitions\<close>

text \<open>
  \<open>services\<close> is the list \<^verbatim>\<open>Service.__subclasses__()\<close>; \<open>exclude\<close> is the list after
  \<^verbatim>\<open>exclude = exclude or []\<close>. The collection is new, so \<^verbatim>\<open>all_by_name\<close> starts empty.
  The result is the exception raised (or \<open>None\<close>) and \<^verbatim>\<open>all_by_name\<close> as the call left it;
  the outer \<open>option\<close> is that of the cycle check.
\<close>

definition load_definitions ::
  "service list \<Rightarrow> string list \<Rightarrow> (error option \<times> registry) option" where
  "load_definitions services exclude =
     (if length services = 0 then Some (Some (ServiceLoadError NoServicesDefined), [])
      else case scan_definitions exclude services [] [] of
          (Some e, all_by_name, name_counter) \<Rightarrow> Some (Some e, all_by_name)
        | (None, all_by_name, name_counter) \<Rightarrow>
           (let multiples = map fst (filter (\<lambda>(name, count). count > 1) name_counter)
            in if multiples \<noteq> []
               then Some (Some (ServiceLoadError (RepeatedServiceName multiples)), all_by_name)
               else case resolve_dependencies all_by_name (map snd all_by_name) of
                   Some e \<Rightarrow> Some (Some e, all_by_name)
                 | None \<Rightarrow>
                    (case check_circular_dependencies all_by_name of
                       None \<Rightarrow> None
                     | Some r \<Rightarrow> Some (r, all_by_name))))"

section \<open>Service agents\<close>

text \<open>
  Modelled from the spec: the class \<^verbatim>\<open>ServiceAgent\<close> of \<^verbatim>\<open>drillmaster/service_agent.py\<close>,
  which is not among the sources. An agent wraps one service definition for one run. Of
  its state the scheduling needs which dependencies have not completed yet: the agent
  keeps their names.
\<close>

record service_agent =
  agent_service :: service
  open_dependencies :: "string list"

text \<open>
  Modelled from the spec: the constructor of \<^verbatim>\<open>ServiceAgent\<close>. When the run begins no
  service has completed, so every dependency of the service is open. The test
  \<^verbatim>\<open>test_can_start\<close> agrees: an agent for a service with one dependency cannot start when
  created.
\<close>

definition ServiceAgent :: "service \<Rightarrow> service_agent" where
  "ServiceAgent service = \<lparr>agent_service = service, open_dependencies = dependencies service\<rparr>"

text \<open>
  Modelled from the spec: the property \<^verbatim>\<open>can_start\<close> of \<^verbatim>\<open>ServiceAgent\<close>, true iff all
  dependencies of the agent have completed.
\<close>

definition can_start :: "service_agent \<Rightarrow> bool" where
  "can_start agent \<longleftrightarrow> open_dependencies agent = []"

text \<open>
  Modelled from the spec: \<^verbatim>\<open>ServiceAgent.process_service_started\<close>, the notification that a
  service has completed; the agent marks that dependency as satisfied.
\<close>

definition process_service_started :: "string \<Rightarrow> service_agent \<Rightarrow> service_agent" where
  "process_service_started started_service agent =
     agent\<lparr>open_dependencies := removeAll started_service (open_dependencies agent)\<rparr>"

section \<open>RunningContext\<close>

text \<open>
  \<^verbatim>\<open>
  self.service_agents = {name: ServiceAgent(service, network_name, collection, timeout)
                         for name, service in services_by_name.items()}
  self.without_dependencies = [x for x in self.service_agents.values() if x.can_start]
  self.waiting_agents = {name: agent for name, agent in self.service_agents.items()
                         if not agent.can_start}
  \<close>
  The network name, the collection and the timeout are handed on to the agents and play no
  part in the scheduling.
\<close>

record running_context =
  service_agents :: "(string \<times> service_agent) list"
  without_dependencies :: "service_agent list"
  waiting_agents :: "(string \<times> service_agent) list"

definition RunningContext :: "registry \<Rightarrow> running_context" where
  "RunningContext services_by_name =
     (let agents = map (\<lambda>(name, service). (name, ServiceAgent service)) services_by_name
      in \<lparr>service_agents = agents,
          without_dependencies = filter can_start (map snd agents),
          waiting_agents = filter (\<lambda>(name, agent). \<not> can_start agent) agents\<rparr>)"

text \<open>The property \<^verbatim>\<open>done\<close>: \<^verbatim>\<open>not bool(self.waiting_agents)\<close>.\<close>

definition done_property :: "running_context \<Rightarrow> bool" where
  "done_property ctx \<longleftrightarrow> \<not> (waiting_agents ctx \<noteq> [])"

text \<open>\<^verbatim>\<open>d.pop(key)\<close> removes the key; the caller has looked the value up.\<close>

definition dict_del :: "'k \<Rightarrow> ('k \<times> 'v) list \<Rightarrow> ('k \<times> 'v) list" where
  "dict_del key d = filter (\<lambda>(k, v). k \<noteq> key) d"

text \<open>
  The loop of \<^verbatim>\<open>service_started\<close>:
  \<^verbatim>\<open>
  for name, agent in self.waiting_agents.items():
      agent.process_service_started(started_service)
      if agent.can_start:
          startable.append(name)
  \<close>
  It returns the waiting map with every agent notified, and \<^verbatim>\<open>startable\<close>.
\<close>

fun notify_waiting ::
  "string \<Rightarrow> (string \<times> service_agent) list \<Rightarrow> string list
     \<Rightarrow> (string \<times> service_agent) list \<times> string list" where
  "notify_waiting started_service [] startable = ([], startable)"
| "notify_waiting started_service ((key, agent) # rest) startable =
     (let agent' = process_service_started started_service agent;
          startable' = (if can_start agent' then startable @ [key] else startable);
          (rest', startable'') = notify_waiting started_service rest startable'
      in ((key, agent') # rest', startable''))"

text \<open>
  \<^verbatim>\<open>[self.waiting_agents.pop(name) for name in startable]\<close>: the agents popped so far, or
  the \<^verbatim>\<open>KeyError\<close> of a missing key, and the waiting map as the pops left it.
\<close>

fun pop_startable ::
  "string list \<Rightarrow> (string \<times> service_agent) list
     \<Rightarrow> (error + service_agent list) \<times> (string \<times> service_agent) list" where
  "pop_startable [] waiting = (Inr [], waiting)"
| "pop_startable (key # startable) waiting =
     (case map_of waiting key of
        None \<Rightarrow> (Inl (KeyError key), waiting)
      | Some agent \<Rightarrow>
         (case pop_startable startable (dict_del key waiting) of
            (Inl e, waiting') \<Rightarrow> (Inl e, waiting')
          | (Inr agents, waiting') \<Rightarrow> (Inr (agent # agents), waiting')))"

text \<open>
  \<^verbatim>\<open>
  def service_started(self, started_service):
      self.service_agents.pop(started_service)
      startable = []
      for name, agent in self.waiting_agents.items(): ...
      return [self.waiting_agents.pop(name) for name in startable]
  \<close>
  The result is the list returned or the exception raised, and the context as the call
  left it. The waiting agents are the very objects stored in \<^verbatim>\<open>service_agents\<close> under the
  same names, so the notification shows there as well.
\<close>

definition service_started ::
  "string \<Rightarrow> running_context \<Rightarrow> (error + service_agent list) \<times> running_context" where
  "service_started started_service ctx =
     (case map_of (service_agents ctx) started_service of
        None \<Rightarrow> (Inl (KeyError started_service), ctx)
      | Some _ \<Rightarrow>
         (let (notified, startable) = notify_waiting started_service (waiting_agents ctx) [];
              active = map (\<lambda>(name, agent).
                              (name, case map_of notified name of
                                       Some agent' \<Rightarrow> agent' | None \<Rightarrow> agent))
                         (dict_del started_service (service_agents ctx));
              (result, waiting) = pop_startable startable notified
          in (result, ctx\<lparr>service_agents := active, waiting_agents := waiting\<rparr>)))"

section \<open>ServiceCollection: the coordinator\<close>

text \<open>
  The fields of \<^verbatim>\<open>ServiceCollection\<close> that the scheduling reads or writes, and the log
  \<open>launched\<close> of the calls of \<^verbatim>\<open>agent.start()\<close>, which is not a field of the class: it
  records what the collection has started. The lock only serialises the calls of
  \<^verbatim>\<open>start_next\<close>, which the model runs one at a time.
\<close>

record collection =
  all_by_name :: registry
  running_context :: "running_context option"
  failed :: bool
  launched :: "string list"

text \<open>\<^verbatim>\<open>ServiceCollection.__init__\<close>.\<close>

definition ServiceCollection :: collection where
  "ServiceCollection =
     \<lparr>all_by_name = [], running_context = None, failed = False, launched = []\<rparr>"

text \<open>
  Modelled from the spec: \<^verbatim>\<open>agent.start()\<close>, the method of the missing class
  \<^verbatim>\<open>ServiceAgent\<close>, launches the agent on a thread of its own. \<open>start_agents\<close> is a loop
  \<^verbatim>\<open>for agent in agents: agent.start()\<close>: it records each launch by the name of the
  agent's service, in the order of the calls.
\<close>

definition start_agents :: "service_agent list \<Rightarrow> collection \<Rightarrow> collection" where
  "start_agents agents c =
     c\<lparr>launched := launched c @ map (\<lambda>agent. name (agent_service agent)) agents\<rparr>"

text \<open>
  \<^verbatim>\<open>
  def start_next(self, started_service):
      with self.service_pop_lock:
          new_startables = self.running_context.service_started(started_service)
          for agent in new_startables:
              agent.start()
  \<close>
  Before \<^verbatim>\<open>start_all\<close> has run, \<^verbatim>\<open>running_context\<close> is \<^verbatim>\<open>None\<close> and the call raises
  \<^verbatim>\<open>AttributeError\<close>.
\<close>

definition start_next :: "string \<Rightarrow> collection \<Rightarrow> error option \<times> collection" where
  "start_next started_service c =
     (case running_context c of
        None \<Rightarrow> (Some AttributeError, c)
      | Some ctx \<Rightarrow>
         (case service_started started_service ctx of
            (Inl e, ctx') \<Rightarrow> (Some e, c\<lparr>running_context := Some ctx'\<rparr>)
          | (Inr new_startables, ctx') \<Rightarrow>
              (None, start_agents new_startables (c\<lparr>running_context := Some ctx'\<rparr>))))"

text \<open>\<^verbatim>\<open>def service_failed(self, failed_service): self.failed = True\<close>\<close>

definition service_failed :: "string \<Rightarrow> collection \<Rightarrow> collection" where
  "service_failed failed_service c = c\<lparr>failed := True\<rparr>"

subsection \<open>Runs\<close>

text \<open>
  Modelled from the spec: what a launched agent does (\<^verbatim>\<open>ServiceAgent.run\<close> is missing). On
  successful initialization it reports \<^verbatim>\<open>start_next(name)\<close> to the collection, on a failure
  \<^verbatim>\<open>service_failed(name)\<close>; the test file's \<^verbatim>\<open>FakeServiceCollection\<close> records exactly these two
  calls. An event is one such report; an exception raised inside \<^verbatim>\<open>start_next\<close> ends the
  reporting thread and leaves the collection as the call left it.
\<close>

datatype event = Started string | Failed string

fun step :: "collection \<Rightarrow> event \<Rightarrow> collection" where
  "step c (Started started_service) = snd (start_next started_service c)"
| "step c (Failed failed_service) = service_failed failed_service c"

fun run :: "collection \<Rightarrow> event list \<Rightarrow> collection" where
  "run c [] = c"
| "run c (e # events) = run (step c e) events"

text \<open>
  \<^verbatim>\<open>
  def start_all(self, create_new, network_name, timeout):
      self.running_context = RunningContext(self.all_by_name, network_name, self, timeout)
      for agent in self.running_context.without_dependencies:
          agent.start()
      while not (self.running_context.done or self.failed):
          time.sleep(0.05)
      if self.failed:
          logger.error("Failed to start all services")
  \<close>
  \<open>start_all_launch\<close> is the part before the loop. The loop itself changes nothing: it
  waits while the agents' threads report. \<open>wait_loop\<close> takes the reports in the order in
  which they arrive and leaves at the first state in which \<^verbatim>\<open>done\<close> or \<^verbatim>\<open>failed\<close> holds
  (neither is ever undone, so a later poll sees the same condition); when the reports run
  out before that, the loop never ends, which is \<open>None\<close>. (\<^verbatim>\<open>start_all\<close> has set the context
  before the loop, so its branch for a missing context is never taken.) The body has no
  \<^verbatim>\<open>return\<close> statement: the value returned is Python's \<^verbatim>\<open>None\<close>, the \<open>None\<close> of the first
  component.
\<close>

definition start_all_launch :: "collection \<Rightarrow> collection" where
  "start_all_launch c =
     (let ctx = RunningContext (all_by_name c)
      in start_agents (without_dependencies ctx) (c\<lparr>running_context := Some ctx\<rparr>))"

fun wait_loop :: "collection \<Rightarrow> event list \<Rightarrow> collection option" where
  "wait_loop c events =
     (if (case running_context c of None \<Rightarrow> False | Some ctx \<Rightarrow> done_property ctx) \<or> failed c
      then Some c
      else case events of
          [] \<Rightarrow> None
        | e # events' \<Rightarrow> wait_loop (step c e) events')"

definition start_all :: "collection \<Rightarrow> event list \<Rightarrow> (string list option \<times> collection) option" where
  "start_all c events =
     (case wait_loop (start_all_launch c) events of
        None \<Rightarrow> None
      | Some c' \<Rightarrow> Some (None, c'))"

text \<open>
  \<^verbatim>\<open>
  def start_services(create_new, exclude, network_name, timeout):
      docker = get_client()
      collection = ServiceCollection()
      collection.load_definitions(exclude=exclude)
      existing_network = docker.networks.list(names=[network_name])
      if not existing_network:
          network = docker.networks.create(network_name, driver="bridge")
          logger.info("Created network %s", network_name)
      service_names = collection.start_all(create_new, network_name, timeout)
      logger.info("Started services: %s", ",".join(service_names))
  \<close>
  The result is the exception that ends the call, or the names logged at the end. The calls
  to the container runtime do not touch the collection and are left out.
  \<^verbatim>\<open>",".join(x)\<close> raises \<^verbatim>\<open>TypeError\<close> when \<^verbatim>\<open>x\<close> is \<^verbatim>\<open>None\<close>.
\<close>

fun str_join :: "string \<Rightarrow> string list \<Rightarrow> string" where
  "str_join sep [] = []"
| "str_join sep [x] = x"
| "str_join sep (x # y # ys) = x @ sep @ str_join sep (y # ys)"

definition start_services ::
  "service list \<Rightarrow> string list \<Rightarrow> event list \<Rightarrow> (error + string) option" where
  "start_services services exclude events =
     (case load_definitions services exclude of
        None \<Rightarrow> None
      | Some (Some e, reg) \<Rightarrow> Some (Inl e)
      | Some (None, reg) \<Rightarrow>
         (case start_all (ServiceCollection\<lparr>all_by_name := reg\<rparr>) events of
            None \<Rightarrow> None
          | Some (None, c) \<Rightarrow> Some (Inl TypeError)
          | Some (Some service_names, c) \<Rightarrow> Some (Inr (str_join '','' service_names))))"

section \<open>Auxiliary predicates\<close>

text \<open>
  No definition that is kept lists an excluded name among its dependencies: the condition
  under which the scan raises nothing.
\<close>

definition no_excluded_dependency :: "string list \<Rightarrow> service list \<Rightarrow> bool" where
  "no_excluded_dependency exclude services =
     list_all (\<lambda>s. name s \<in> set exclude \<or> set (dependencies s) \<inter> set exclude = {}) services"

text \<open>The names under which agents are waiting; none before \<^verbatim>\<open>start_all\<close>.\<close>

definition waiting_names :: "collection \<Rightarrow> string list" where
  "waiting_names c =
     (case running_context c of None \<Rightarrow> [] | Some ctx \<Rightarrow> map fst (waiting_agents ctx))"

text \<open>
  What every run keeps true of the coordinator: the context exists, the waiting map is a
  dict whose agents are stored under the names of their services, no agent was launched
  twice, and no launched agent is waiting.
\<close>

definition coordinator_inv :: "collection \<Rightarrow> bool" where
  "coordinator_inv c \<longleftrightarrow>
     (case running_context c of
        None \<Rightarrow> False
      | Some ctx \<Rightarrow>
          distinct (map fst (waiting_agents ctx)) \<and>
          list_all (\<lambda>(k, agent). name (agent_service agent) = k) (waiting_agents ctx) \<and>
          distinct (launched c) \<and>
          set (launched c) \<inter> set (map fst (waiting_agents ctx)) = {})"

section \<open>Termination of the cycle check\<close>

lemma go_up_loop_returns:
  assumes "count \<le> length reg" and "length reg - count \<le> fuel"
  shows "\<exists>e count'. go_up_loop fuel reg start deps count = Some (e, count') \<and>
           count \<le> count' \<and> count' \<le> length reg"
  using assms
proof (induction fuel reg start deps count rule: go_up_loop.induct)
  case (1 fuel reg start count)
  then show ?case by simp
next
  case (2 fuel reg start dependency rest count)
  show ?case
  proof (cases "dependency = start \<or> count = length reg")
    case True
    with "2.prems" show ?thesis by auto
  next
    case False
    then have ne: "dependency \<noteq> start" "count \<noteq> length reg" by simp_all
    with "2.prems" obtain fuel' where fuel: "fuel = Suc fuel'"
      by (cases fuel) auto
    show ?thesis
    proof (cases "map_of reg dependency")
      case None
      with ne fuel "2.prems" show ?thesis by simp
    next
      case (Some dep)
      from ne "2.prems" fuel
      have "count + 1 \<le> length reg" and "length reg - (count + 1) \<le> fuel'"
        by auto
      from "2.IH"(1) [OF ne fuel Some this]
      obtain e c where inner:
          "go_up_loop fuel' reg start (dependencies dep) (count + 1) = Some (e, c)"
        and c: "count + 1 \<le> c" "c \<le> length reg"
        by blast
      show ?thesis
      proof (cases e)
        case None
        from c "2.prems" have "length reg - c \<le> fuel"
          by auto
        from "2.IH"(2) [OF ne fuel Some inner refl None c(2) this]
        obtain e' c' where "go_up_loop fuel reg start rest c = Some (e', c')"
          and "c \<le> c'" "c' \<le> length reg"
          by blast
        with ne fuel Some inner None c show ?thesis by simp
      next
        case (Some err)
        with ne fuel \<open>map_of reg dependency = Some dep\<close> inner c show ?thesis by simp
      qed
    qed
  qed
qed

lemma go_up_loop_fuel_mono:
  assumes "go_up_loop fuel reg start deps count = Some r" and "fuel \<le> fuel2"
  shows "go_up_loop fuel2 reg start deps count = Some r"
  using assms
proof (induction fuel reg start deps count arbitrary: fuel2 r rule: go_up_loop.induct)
  case (1 fuel reg start count)
  then show ?case by simp
next
  case (2 fuel reg start dependency rest count)
  show ?case
  proof (cases "dependency = start \<or> count = length reg")
    case True
    with "2.prems" show ?thesis by auto
  next
    case False
    then have ne: "dependency \<noteq> start" "count \<noteq> length reg" by simp_all
    with "2.prems"(1) obtain fuel' where fuel: "fuel = Suc fuel'"
      by (cases fuel) auto
    with "2.prems"(2) obtain fuel2' where fuel2: "fuel2 = Suc fuel2'" and le: "fuel' \<le> fuel2'"
      by (cases fuel2) auto
    show ?thesis
    proof (cases "map_of reg dependency")
      case None
      with ne fuel fuel2 "2.prems" show ?thesis by simp
    next
      case (Some dep)
      with ne fuel "2.prems"(1) obtain e c where inner:
          "go_up_loop fuel' reg start (dependencies dep) (count + 1) = Some (e, c)"
        by (cases "go_up_loop fuel' reg start (dependencies dep) (count + 1)") auto
      from "2.IH"(1) [OF ne fuel Some inner le]
      have inner2: "go_up_loop fuel2' reg start (dependencies dep) (count + 1) = Some (e, c)" .
      show ?thesis
      proof (cases e)
        case None
        with ne fuel Some inner "2.prems"(1)
        have "go_up_loop fuel reg start rest c = Some r" by simp
        from "2.IH"(2) [OF ne fuel Some inner refl None this "2.prems"(2)]
        have "go_up_loop fuel2 reg start rest c = Some r" .
        with ne fuel2 Some inner2 None show ?thesis by simp
      next
        case (Some err)
        with ne fuel \<open>map_of reg dependency = Some dep\<close> inner "2.prems"(1)
        have "r = (Some err, c)" by simp
        with ne fuel2 \<open>map_of reg dependency = Some dep\<close> inner2 Some
        show ?thesis by simp
      qed
    qed
  qed
qed

lemma go_up_dependencies_returns:
  assumes "reg \<noteq> []" and "length reg \<le> fuel"
  shows "\<exists>e count. go_up_dependencies fuel reg start checked 0 = Some (e, count) \<and>
           count \<le> length reg"
proof -
  from assms have "1 \<le> length reg" and "length reg - 1 \<le> fuel"
    by (simp_all add: Suc_le_eq)
  from go_up_loop_returns [OF this, of start "dependencies checked"]
  show ?thesis by (auto simp: go_up_dependencies_def)
qed

lemma check_origins_returns:
  assumes "reg \<noteq> []"
  shows "\<exists>r. check_origins reg origins = Some r"
proof (induction origins)
  case Nil
  then show ?case by simp
next
  case (Cons service origins)
  from go_up_dependencies_returns [OF assms order_refl, of "name service" service]
  obtain e count where
    "go_up_dependencies (length reg) reg (name service) service 0 = Some (e, count)"
    by blast
  with Cons.IH show ?case by (cases e) auto
qed

lemma check_circular_dependencies_returns:
  "\<exists>r. check_circular_dependencies reg = Some r"
proof (cases "reg = []")
  case True
  then show ?thesis by (simp add: check_circular_dependencies_def)
next
  case False
  then show ?thesis
    unfolding check_circular_dependencies_def by (rule check_origins_returns)
qed

lemma load_definitions_returns: "\<exists>e reg. load_definitions services exclude = Some (e, reg)"
proof -
  obtain e reg counter where scan: "scan_definitions exclude services [] [] = (e, reg, counter)"
    by (cases "scan_definitions exclude services [] []") auto
  from check_circular_dependencies_returns [of reg]
  obtain r where "check_circular_dependencies reg = Some r" by blast
  with scan show ?thesis
    by (auto simp: load_definitions_def Let_def split: option.splits)
qed

text \<open>
  C4. For every registry of N definitions, with or without cycles, the cycle check
  returns. The walk from each origin returns within a recursion depth of N (a larger
  bound changes nothing), and the shared counter, which counts the calls of
  \<^verbatim>\<open>go_up_dependencies\<close>, ends at N at most.
\<close>

theorem check_circular_dependencies_terminates:
  "(\<exists>r. check_circular_dependencies reg = Some r) \<and>
   (\<forall>service \<in> set (map snd reg). \<forall>fuel \<ge> length reg.
      \<exists>e count. go_up_dependencies fuel reg (name service) service 0 = Some (e, count) \<and>
        count \<le> length reg \<and>
        go_up_dependencies (length reg) reg (name service) service 0 = Some (e, count))"
proof (intro conjI ballI allI impI)
  show "\<exists>r. check_circular_dependencies reg = Some r"
    by (rule check_circular_dependencies_returns)
next
  fix service fuel
  assume "service \<in> set (map snd reg)" and fuel: "length reg \<le> fuel"
  then have "reg \<noteq> []" by auto
  from go_up_dependencies_returns [OF this order_refl, of "name service" service]
  obtain e count where
    walk: "go_up_dependencies (length reg) reg (name service) service 0 = Some (e, count)"
    and count: "count \<le> length reg"
    by blast
  from walk fuel have "go_up_dependencies fuel reg (name service) service 0 = Some (e, count)"
    unfolding go_up_dependencies_def by (rule go_up_loop_fuel_mono)
  with walk count
  show "\<exists>e count. go_up_dependencies fuel reg (name service) service 0 = Some (e, count) \<and>
        count \<le> length reg \<and>
        go_up_dependencies (length reg) reg (name service) service 0 = Some (e, count)"
    by blast
qed

theorem check_circular_dependencies_terminates_witness:
  "(\<exists>r. check_circular_dependencies
      [(''a'', \<lparr>name = ''a'', dependencies = [''b'']\<rparr>), (''b'', \<lparr>name = ''b'', dependencies = [''a'']\<rparr>)] = Some r) \<and>
   (\<exists>e count. go_up_dependencies 7
      [(''a'', \<lparr>name = ''a'', dependencies = [''b'']\<rparr>), (''b'', \<lparr>name = ''b'', dependencies = [''a'']\<rparr>)]
      ''a'' \<lparr>name = ''a'', dependencies = [''b'']\<rparr> 0 = Some (e, count) \<and> count \<le> 2)"
proof -
  let ?reg = "[(''a'', \<lparr>name = ''a'', dependencies = [''b'']\<rparr>), (''b'', \<lparr>name = ''b'', dependencies = [''a'']\<rparr>)]"
  note inst = check_circular_dependencies_terminates [of ?reg]
  from inst have ret: "\<exists>r. check_circular_dependencies ?reg = Some r" by (rule conjunct1)
  from inst have "\<forall>service \<in> set (map snd ?reg). \<forall>fuel \<ge> length ?reg.
      \<exists>e count. go_up_dependencies fuel ?reg (name service) service 0 = Some (e, count) \<and>
        count \<le> length ?reg \<and>
        go_up_dependencies (length ?reg) ?reg (name service) service 0 = Some (e, count)"
    by (rule conjunct2)
  then have "\<forall>fuel \<ge> length ?reg.
      \<exists>e count. go_up_dependencies fuel ?reg (name \<lparr>name = ''a'', dependencies = [''b'']\<rparr>)
          \<lparr>name = ''a'', dependencies = [''b'']\<rparr> 0 = Some (e, count) \<and>
        count \<le> length ?reg \<and>
        go_up_dependencies (length ?reg) ?reg (name \<lparr>name = ''a'', dependencies = [''b'']\<rparr>)
          \<lparr>name = ''a'', dependencies = [''b'']\<rparr> 0 = Some (e, count)"
    by (rule bspec) simp
  from this [rule_format, of 7]
  have "\<exists>e count. go_up_dependencies 7 ?reg ''a'' \<lparr>name = ''a'', dependencies = [''b'']\<rparr> 0 = Some (e, count) \<and>
        count \<le> 2"
    by (auto simp: numeral_2_eq_2)
  with ret show ?thesis by (rule conjI)
qed

section \<open>Properties of load\_definitions\<close>

subsection \<open>Excluded dependencies\<close>

lemma scan_definitions_excluded_dependency:
  assumes "service \<in> set services" and "name service \<notin> set exclude"
    and "dep \<in> set (dependencies service)" and "dep \<in> set exclude"
  shows "\<exists>d s. fst (scan_definitions exclude services reg name_counter) =
             Some (ServiceLoadError (ExcludedDependency d (name s))) \<and>
           s \<in> set services \<and> name s \<notin> set exclude \<and> d \<in> set (dependencies s) \<and> d \<in> set exclude"
  using assms(1)
proof (induction services arbitrary: reg name_counter)
  case Nil
  then show ?case by simp
next
  case (Cons x xs)
  let ?ex = "filter (\<lambda>dep. dep \<in> set exclude) (dependencies x)"
  show ?case
  proof (cases "name x \<notin> set exclude \<and> ?ex \<noteq> []")
    case True
    then have "?ex \<noteq> []" by simp
    then have "hd ?ex \<in> set ?ex" by (rule hd_in_set)
    then have "hd ?ex \<in> set (dependencies x)" and "hd ?ex \<in> set exclude"
      unfolding set_filter by blast+
    with True show ?thesis
      by (intro exI [of _ "hd ?ex"] exI [of _ x]) (simp add: Let_def)
  next
    case False
    with assms(2-4) have "service \<noteq> x"
      by (auto simp: filter_empty_conv)
    with Cons.prems have "service \<in> set xs" by simp
    from False have "\<exists>A C.
      scan_definitions exclude (x # xs) reg name_counter = scan_definitions exclude xs A C"
      by (cases "name x \<in> set exclude") (simp_all add: Let_def, blast+)
    then obtain A C where
      "scan_definitions exclude (x # xs) reg name_counter = scan_definitions exclude xs A C"
      by blast
    with Cons.IH [OF \<open>service \<in> set xs\<close>, of A C] show ?thesis
      by auto
  qed
qed

text \<open>
  C8. Whenever some definition that is not excluded lists an excluded name among its
  dependencies, \<open>load_definitions\<close> returns with the \<^verbatim>\<open>ServiceLoadError\<close> of an excluded
  dependency, and the pair it reports is such a definition and such a dependency. The
  list of definitions is arbitrary, so the order of declaration and of the scan plays no
  part.
\<close>

theorem load_definitions_excluded_dependency:
  assumes "service \<in> set services" and "name service \<notin> set exclude"
    and "dep \<in> set (dependencies service)" and "dep \<in> set exclude"
  shows "\<exists>d s reg. load_definitions services exclude =
             Some (Some (ServiceLoadError (ExcludedDependency d (name s))), reg) \<and>
           s \<in> set services \<and> name s \<notin> set exclude \<and> d \<in> set (dependencies s) \<and> d \<in> set exclude"
proof -
  from scan_definitions_excluded_dependency [OF assms, of "[]" "[]"]
  obtain d s where scan: "fst (scan_definitions exclude services [] []) =
      Some (ServiceLoadError (ExcludedDependency d (name s)))"
    and s: "s \<in> set services" "name s \<notin> set exclude" "d \<in> set (dependencies s)" "d \<in> set exclude"
    by blast
  from assms(1) have "length services \<noteq> 0" by auto
  with scan have "load_definitions services exclude =
      Some (Some (ServiceLoadError (ExcludedDependency d (name s))),
            fst (snd (scan_definitions exclude services [] [])))"
    by (cases "scan_definitions exclude services [] []") (auto simp: load_definitions_def)
  with s show ?thesis by blast
qed

theorem load_definitions_excluded_dependency_witness:
  "load_definitions
     [\<lparr>name = ''db'', dependencies = []\<rparr>, \<lparr>name = ''api'', dependencies = [''db'']\<rparr>] [''db'']
   = Some (Some (ServiceLoadError (ExcludedDependency ''db'' ''api'')),
           [(''api'', \<lparr>name = ''api'', dependencies = [''db'']\<rparr>)])"
  using load_definitions_excluded_dependency
    [of "\<lparr>name = ''api'', dependencies = [''db'']\<rparr>"
        "[\<lparr>name = ''db'', dependencies = []\<rparr>, \<lparr>name = ''api'', dependencies = [''db'']\<rparr>]"
        "[''db'']" "''db''"]
  by (simp add: load_definitions_def counter_incr_def counter_get_def)

subsection \<open>The scan\<close>

lemma map_of_dict_set: "map_of (dict_set k v d) = (map_of d)(k \<mapsto> v)"
  by (induction d) (auto simp: fun_eq_iff)

lemma keys_dict_set: "fst ` set (dict_set k v d) = insert k (fst ` set d)"
proof -
  have "fst ` set (dict_set k v d) = dom (map_of (dict_set k v d))"
    by (simp only: dom_map_of_conv_image_fst)
  also have "\<dots> = insert k (dom (map_of d))"
    by (simp add: map_of_dict_set)
  also have "\<dots> = insert k (fst ` set d)"
    by (simp only: dom_map_of_conv_image_fst)
  finally show ?thesis .
qed

lemma distinct_dict_set: "distinct (map fst d) \<Longrightarrow> distinct (map fst (dict_set k v d))"
  by (induction d) (auto simp: keys_dict_set)

lemma counter_get_incr:
  "counter_get (counter_incr k c) n = counter_get c n + (if n = k then 1 else 0)"
  by (simp add: counter_get_def counter_incr_def map_of_dict_set)

lemma distinct_counter_incr: "distinct (map fst c) \<Longrightarrow> distinct (map fst (counter_incr k c))"
  by (simp add: counter_incr_def distinct_dict_set)

lemma no_excluded_dependency_Cons:
  "no_excluded_dependency exclude (x # xs) \<Longrightarrow> no_excluded_dependency exclude xs"
  by (simp add: no_excluded_dependency_def)

lemma no_excluded_dependency_iff:
  "no_excluded_dependency exclude services \<longleftrightarrow>
     (\<forall>s \<in> set services. name s \<notin> set exclude \<longrightarrow> (\<forall>d \<in> set (dependencies s). d \<notin> set exclude))"
  unfolding no_excluded_dependency_def list_all_iff by blast

lemma scan_definitions_step:
  assumes "no_excluded_dependency exclude (x # xs)"
  shows "scan_definitions exclude (x # xs) reg counter =
     scan_definitions exclude xs
       (if name x \<notin> set exclude then dict_set (name x) x reg else reg)
       (counter_incr (name x) counter)"
proof (cases "name x \<in> set exclude")
  case True
  then show ?thesis by simp
next
  case False
  with assms have "set (dependencies x) \<inter> set exclude = {}"
    by (simp add: no_excluded_dependency_def)
  then have "filter (\<lambda>dep. dep \<in> set exclude) (dependencies x) = []"
    unfolding filter_empty_conv by blast
  with False show ?thesis by (simp add: Let_def)
qed

lemma scan_definitions_no_error:
  "no_excluded_dependency exclude services \<Longrightarrow>
     fst (scan_definitions exclude services reg counter) = None"
proof (induction services arbitrary: reg counter)
  case Nil
  show ?case by simp
next
  case (Cons x xs)
  from Cons.prems have "no_excluded_dependency exclude xs"
    by (rule no_excluded_dependency_Cons)
  then show ?case
    unfolding scan_definitions_step [OF Cons.prems] by (rule Cons.IH)
qed

lemma scan_definitions_counter:
  "no_excluded_dependency exclude services \<Longrightarrow>
     counter_get (snd (snd (scan_definitions exclude services reg counter))) n =
       counter_get counter n + count_list (map name services) n"
proof (induction services arbitrary: reg counter)
  case Nil
  show ?case by simp
next
  case (Cons x xs)
  let ?reg = "if name x \<notin> set exclude then dict_set (name x) x reg else reg"
  let ?counter = "counter_incr (name x) counter"
  from Cons.prems have "no_excluded_dependency exclude xs"
    by (rule no_excluded_dependency_Cons)
  then have "counter_get (snd (snd (scan_definitions exclude xs ?reg ?counter))) n =
      counter_get ?counter n + count_list (map name xs) n"
    by (rule Cons.IH)
  also have "\<dots> = counter_get counter n + count_list (map name (x # xs)) n"
    by (simp add: counter_get_incr)
  finally show ?case
    unfolding scan_definitions_step [OF Cons.prems] .
qed

lemma scan_definitions_counter_distinct:
  "no_excluded_dependency exclude services \<Longrightarrow> distinct (map fst counter) \<Longrightarrow>
     distinct (map fst (snd (snd (scan_definitions exclude services reg counter))))"
proof (induction services arbitrary: reg counter)
  case Nil
  then show ?case by simp
next
  case (Cons x xs)
  from Cons.prems(1) have "no_excluded_dependency exclude xs"
    by (rule no_excluded_dependency_Cons)
  moreover from Cons.prems(2) have "distinct (map fst (counter_incr (name x) counter))"
    by (rule distinct_counter_incr)
  ultimately show ?case
    unfolding scan_definitions_step [OF Cons.prems(1)] by (rule Cons.IH)
qed

lemma scan_definitions_keys:
  "no_excluded_dependency exclude services \<Longrightarrow>
     fst ` set (fst (snd (scan_definitions exclude services reg counter))) =
       fst ` set reg \<union> (name ` set services - set exclude)"
proof (induction services arbitrary: reg counter)
  case Nil
  show ?case by simp
next
  case (Cons x xs)
  let ?reg = "if name x \<notin> set exclude then dict_set (name x) x reg else reg"
  let ?counter = "counter_incr (name x) counter"
  from Cons.prems have "no_excluded_dependency exclude xs"
    by (rule no_excluded_dependency_Cons)
  then have "fst ` set (fst (snd (scan_definitions exclude xs ?reg ?counter))) =
      fst ` set ?reg \<union> (name ` set xs - set exclude)"
    by (rule Cons.IH)
  also have "\<dots> = fst ` set reg \<union> (name ` set (x # xs) - set exclude)"
    by (auto simp: keys_dict_set)
  finally show ?case
    unfolding scan_definitions_step [OF Cons.prems] .
qed

lemma scan_definitions_untouched:
  "no_excluded_dependency exclude services \<Longrightarrow> n \<notin> name ` set services \<Longrightarrow>
     map_of (fst (snd (scan_definitions exclude services reg counter))) n = map_of reg n"
proof (induction services arbitrary: reg counter)
  case Nil
  show ?case by simp
next
  case (Cons x xs)
  let ?reg = "if name x \<notin> set exclude then dict_set (name x) x reg else reg"
  let ?counter = "counter_incr (name x) counter"
  from Cons.prems(1) have "no_excluded_dependency exclude xs"
    by (rule no_excluded_dependency_Cons)
  moreover from Cons.prems(2) have "n \<notin> name ` set xs" and "n \<noteq> name x" by auto
  ultimately have "map_of (fst (snd (scan_definitions exclude xs ?reg ?counter))) n = map_of ?reg n"
    using Cons.IH by blast
  also from \<open>n \<noteq> name x\<close> have "\<dots> = map_of reg n"
    by (simp add: map_of_dict_set)
  finally show ?case
    unfolding scan_definitions_step [OF Cons.prems(1)] .
qed

lemma scan_definitions_lookup:
  "no_excluded_dependency exclude services \<Longrightarrow> distinct (map name services) \<Longrightarrow>
   s \<in> set services \<Longrightarrow> name s \<notin> set exclude \<Longrightarrow>
     map_of (fst (snd (scan_definitions exclude services reg counter))) (name s) = Some s"
proof (induction services arbitrary: reg counter)
  case Nil
  then show ?case by simp
next
  case (Cons x xs)
  let ?reg = "if name x \<notin> set exclude then dict_set (name x) x reg else reg"
  let ?counter = "counter_incr (name x) counter"
  from Cons.prems(1) have xs: "no_excluded_dependency exclude xs"
    by (rule no_excluded_dependency_Cons)
  from Cons.prems(2) have dist: "distinct (map name xs)" and fresh: "name x \<notin> name ` set xs"
    by simp_all
  have "map_of (fst (snd (scan_definitions exclude xs ?reg ?counter))) (name s) = Some s"
  proof (cases "s = x")
    case True
    from xs fresh have "map_of (fst (snd (scan_definitions exclude xs ?reg ?counter))) (name x) =
        map_of ?reg (name x)"
      by (rule scan_definitions_untouched)
    with True Cons.prems(4) show ?thesis by (simp add: map_of_dict_set)
  next
    case False
    with Cons.prems(3) have "s \<in> set xs" by simp
    with xs dist show ?thesis using Cons.prems(4) by (rule Cons.IH)
  qed
  then show ?case
    unfolding scan_definitions_step [OF Cons.prems(1)] .
qed

lemma distinct_count_list: "distinct xs \<longleftrightarrow> (\<forall>n. count_list xs n \<le> 1)"
proof (induction xs)
  case Nil
  show ?case by simp
next
  case (Cons x xs)
  show ?case
  proof (cases "x \<in> set xs")
    case True
    then have "count_list xs x \<noteq> 0" by (simp add: count_list_0_iff)
    then have "\<not> count_list (x # xs) x \<le> 1" by simp
    then have "\<not> (\<forall>n. count_list (x # xs) n \<le> 1)" by blast
    moreover from True have "\<not> distinct (x # xs)" by simp
    ultimately show ?thesis by blast
  next
    case False
    then have zero: "count_list xs x = 0" by simp
    have "(\<forall>n. count_list (x # xs) n \<le> 1) \<longleftrightarrow> (\<forall>n. count_list xs n \<le> 1)"
    proof
      assume all: "\<forall>n. count_list (x # xs) n \<le> 1"
      show "\<forall>n. count_list xs n \<le> 1"
      proof
        fix n
        from all have "count_list (x # xs) n \<le> 1" by (rule spec)
        then show "count_list xs n \<le> 1" by (simp split: if_splits)
      qed
    next
      assume all: "\<forall>n. count_list xs n \<le> 1"
      show "\<forall>n. count_list (x # xs) n \<le> 1"
      proof
        fix n
        from all have "count_list xs n \<le> 1" by (rule spec)
        with zero show "count_list (x # xs) n \<le> 1" by (cases "x = n") simp_all
      qed
    qed
    moreover from False have "distinct (x # xs) \<longleftrightarrow> distinct xs" by simp
    ultimately show ?thesis using Cons.IH by (simp only:)
  qed
qed

lemma multiples_set:
  assumes "distinct (map fst name_counter)"
  shows "set (map fst (filter (\<lambda>(name, count). count > 1) name_counter)) =
     {n. counter_get name_counter n > 1}"
proof -
  have "n \<in> set (map fst (filter (\<lambda>(name, count). count > 1) name_counter)) \<longleftrightarrow>
      counter_get name_counter n > 1" for n
  proof
    assume "n \<in> set (map fst (filter (\<lambda>(name, count). count > 1) name_counter))"
    then obtain c where "(n, c) \<in> set name_counter" and "c > 1" by auto
    with assms show "counter_get name_counter n > 1"
      by (simp add: counter_get_def)
  next
    assume "counter_get name_counter n > 1"
    then obtain c where "map_of name_counter n = Some c" and "c > 1"
      by (auto simp: counter_get_def split: option.splits)
    then have "(n, c) \<in> set name_counter" by (simp add: map_of_SomeD)
    with \<open>c > 1\<close> show "n \<in> set (map fst (filter (\<lambda>(name, count). count > 1) name_counter))"
      by force
  qed
  then show ?thesis by blast
qed

lemma resolve_dependencies_None:
  "resolve_dependencies reg services = None \<longleftrightarrow>
     (\<forall>s \<in> set services. \<forall>d \<in> set (dependencies s). map_of reg d \<noteq> None)"
proof (induction services)
  case Nil
  show ?case by simp
next
  case (Cons x xs)
  show ?case
  proof (cases "filter (\<lambda>dependency. map_of reg dependency = None) (dependencies x)")
    case Nil
    then have "\<forall>d \<in> set (dependencies x). map_of reg d \<noteq> None"
      unfolding filter_empty_conv by blast
    with Nil Cons.IH show ?thesis by simp
  next
    case (Cons k ks)
    then have "k \<in> set (filter (\<lambda>dependency. map_of reg dependency = None) (dependencies x))"
      by simp
    then have "k \<in> set (dependencies x)" and "map_of reg k = None"
      unfolding set_filter by blast+
    with Cons show ?thesis by auto
  qed
qed

lemma resolve_dependencies_KeyError:
  assumes "resolve_dependencies reg services = Some e"
  shows "\<exists>s k. s \<in> set services \<and> k \<in> set (dependencies s) \<and> map_of reg k = None \<and>
            e = KeyError k"
  using assms
proof (induction services)
  case Nil
  then show ?case by simp
next
  case (Cons x xs)
  show ?case
  proof (cases "filter (\<lambda>dependency. map_of reg dependency = None) (dependencies x)")
    case Nil
    with Cons.prems have "resolve_dependencies reg xs = Some e" by simp
    from Cons.IH [OF this] show ?thesis by auto
  next
    case (Cons k ks)
    then have "k \<in> set (filter (\<lambda>dependency. map_of reg dependency = None) (dependencies x))"
      by simp
    then have "k \<in> set (dependencies x)" and "map_of reg k = None"
      unfolding set_filter by blast+
    moreover from Cons Cons.prems have "e = KeyError k" by simp
    ultimately show ?thesis by auto
  qed
qed

lemma scan_definitions_entries:
  assumes "(n, s) \<in> set (fst (snd (scan_definitions exclude services reg counter)))"
  shows "(n, s) \<in> set reg \<or> (s \<in> set services \<and> name s = n \<and> n \<notin> set exclude)"
  using assms
proof (induction services arbitrary: reg counter)
  case Nil
  then show ?case by simp
next
  case (Cons x xs)
  have set_dict: "(n, s) \<in> set (dict_set k v d) \<Longrightarrow> (n, s) \<in> set d \<or> (n = k \<and> s = v)" for k v d
    by (induction d) (auto split: if_splits)
  show ?case
  proof (cases "name x \<in> set exclude")
    case True
    with Cons.prems have "(n, s) \<in> set (fst (snd (scan_definitions exclude xs reg (counter_incr (name x) counter))))"
      by simp
    from Cons.IH [OF this] show ?thesis by auto
  next
    case False
    show ?thesis
    proof (cases "filter (\<lambda>dep. dep \<in> set exclude) (dependencies x) = []")
      case True
      with False Cons.prems have "(n, s) \<in> set (fst (snd (scan_definitions exclude xs
          (dict_set (name x) x reg) (counter_incr (name x) counter))))"
        by (simp add: Let_def)
      from Cons.IH [OF this] False set_dict [of "name x" x reg] show ?thesis by auto
    next
      case nonempty: False
      with False Cons.prems have "(n, s) \<in> set (dict_set (name x) x reg)"
        by (simp add: Let_def)
      with False set_dict [of "name x" x reg] show ?thesis by auto
    qed
  qed
qed

subsection \<open>Repeated names\<close>

lemma load_definitions_after_scan:
  assumes "services \<noteq> []" and "no_excluded_dependency exclude services"
  shows "load_definitions services exclude =
    (let reg = fst (snd (scan_definitions exclude services [] []));
         name_counter = snd (snd (scan_definitions exclude services [] []));
         multiples = map fst (filter (\<lambda>(name, count). count > 1) name_counter)
     in if multiples \<noteq> []
        then Some (Some (ServiceLoadError (RepeatedServiceName multiples)), reg)
        else case resolve_dependencies reg (map snd reg) of
            Some e \<Rightarrow> Some (Some e, reg)
          | None \<Rightarrow>
             (case check_circular_dependencies reg of
                None \<Rightarrow> None
              | Some r \<Rightarrow> Some (r, reg)))"
proof -
  from assms(2) have "fst (scan_definitions exclude services [] []) = None"
    by (rule scan_definitions_no_error)
  then obtain reg counter where "scan_definitions exclude services [] [] = (None, reg, counter)"
    by (cases "scan_definitions exclude services [] []") auto
  with assms(1) show ?thesis
    by (simp add: load_definitions_def Let_def)
qed

lemma scan_multiples:
  assumes "no_excluded_dependency exclude services"
  shows "set (map fst (filter (\<lambda>(name, count). count > 1)
            (snd (snd (scan_definitions exclude services [] []))))) =
         {n. 1 < count_list (map name services) n}"
proof -
  from assms have "distinct (map fst (snd (snd (scan_definitions exclude services [] []))))"
    by (rule scan_definitions_counter_distinct) simp
  then have "set (map fst (filter (\<lambda>(name, count). count > 1)
            (snd (snd (scan_definitions exclude services [] []))))) =
      {n. 1 < counter_get (snd (snd (scan_definitions exclude services [] []))) n}"
    by (rule multiples_set)
  also have "\<dots> = {n. 1 < count_list (map name services) n}"
  proof -
    have "counter_get [] n = 0" for n by (simp add: counter_get_def)
    then show ?thesis by (simp add: scan_definitions_counter [OF assms])
  qed
  finally show ?thesis .
qed

lemma load_definitions_registry:
  assumes "load_definitions services exclude = Some (e, reg)"
  shows "reg = [] \<or> reg = fst (snd (scan_definitions exclude services [] []))"
proof (cases "scan_definitions exclude services [] []")
  case (fields err reg counter)
  with assms show ?thesis
    by (auto simp: load_definitions_def Let_def split: if_splits option.splits)
qed

lemma load_definitions_registry_not_excluded:
  assumes "load_definitions services exclude = Some (e, reg)"
    and "(n, s) \<in> set reg"
  shows "s \<in> set services \<and> name s = n \<and> n \<notin> set exclude"
proof -
  from load_definitions_registry [OF assms(1)] assms(2)
  have "(n, s) \<in> set (fst (snd (scan_definitions exclude services [] [])))" by auto
  from scan_definitions_entries [OF this] show ?thesis by simp
qed

text \<open>
  C5, as amended. Every scanned definition is counted, excluded or not. So when no kept
  definition depends on an excluded name (that failure is raised first, inside the scan),
  \<open>load_definitions\<close> fails with the \<^verbatim>\<open>ServiceLoadError\<close> of repeated names as soon as two
  definitions share a name, and the names it reports are exactly those declared more than
  once. Whatever the outcome, no key of \<^verbatim>\<open>all_by_name\<close> is an excluded name.
\<close>

theorem load_definitions_repeated_name:
  "((\<forall>s \<in> set services. name s \<notin> set exclude \<longrightarrow> (\<forall>d \<in> set (dependencies s). d \<notin> set exclude)) \<and>
    \<not> distinct (map name services) \<longrightarrow>
      (\<exists>multiples reg. load_definitions services exclude =
           Some (Some (ServiceLoadError (RepeatedServiceName multiples)), reg) \<and>
         set multiples = {n. 1 < count_list (map name services) n})) \<and>
   (\<forall>e reg. load_definitions services exclude = Some (e, reg) \<longrightarrow>
      fst ` set reg \<inter> set exclude = {})"
proof (intro conjI impI allI)
  assume "(\<forall>s \<in> set services. name s \<notin> set exclude \<longrightarrow> (\<forall>d \<in> set (dependencies s). d \<notin> set exclude)) \<and>
    \<not> distinct (map name services)"
  then have ok: "no_excluded_dependency exclude services" and rep: "\<not> distinct (map name services)"
    unfolding no_excluded_dependency_iff by blast+
  let ?multiples = "map fst (filter (\<lambda>(name, count). count > 1)
            (snd (snd (scan_definitions exclude services [] []))))"
  from rep obtain n where "1 < count_list (map name services) n"
    unfolding distinct_count_list by (auto simp: not_le)
  with scan_multiples [OF ok] have "n \<in> set ?multiples" by blast
  then have "?multiples \<noteq> []" by (metis empty_iff list.set(1))
  moreover from rep have "services \<noteq> []" by auto
  ultimately have "load_definitions services exclude =
      Some (Some (ServiceLoadError (RepeatedServiceName ?multiples)),
            fst (snd (scan_definitions exclude services [] [])))"
    using load_definitions_after_scan [OF _ ok] by (simp add: Let_def)
  with scan_multiples [OF ok]
  show "\<exists>multiples reg. load_definitions services exclude =
           Some (Some (ServiceLoadError (RepeatedServiceName multiples)), reg) \<and>
         set multiples = {n. 1 < count_list (map name services) n}"
    by blast
next
  fix e reg
  assume "load_definitions services exclude = Some (e, reg)"
  from load_definitions_registry_not_excluded [OF this]
  show "fst ` set reg \<inter> set exclude = {}" by fastforce
qed

theorem load_definitions_repeated_name_witness:
  "\<exists>multiples reg.
     load_definitions
       [\<lparr>name = ''db'', dependencies = []\<rparr>, \<lparr>name = ''api'', dependencies = [''db'']\<rparr>,
        \<lparr>name = ''db'', dependencies = []\<rparr>] [] =
       Some (Some (ServiceLoadError (RepeatedServiceName multiples)), reg) \<and>
     set multiples = {''db''} \<and> fst ` set reg \<inter> set [] = {}"
proof -
  let ?services = "[\<lparr>name = ''db'', dependencies = []\<rparr>, \<lparr>name = ''api'', dependencies = [''db'']\<rparr>,
        \<lparr>name = ''db'', dependencies = []\<rparr>]"
  have dup: "{n. 1 < count_list (map name ?services) n} = {''db''}"
    by auto
  from load_definitions_repeated_name [of ?services "[]"]
  have "\<exists>multiples reg. load_definitions ?services [] =
           Some (Some (ServiceLoadError (RepeatedServiceName multiples)), reg) \<and>
         set multiples = {n. 1 < count_list (map name ?services) n}"
    by simp
  then show ?thesis
    unfolding dup by auto
qed

text \<open>
  Against C5 as stated: a name shared by two excluded definitions only is reported as
  repeated, and two kept definitions sharing a name are not reported when a kept
  definition depends on an excluded name.
\<close>

theorem load_definitions_repeated_name_counterexample:
  "load_definitions [\<lparr>name = ''a'', dependencies = []\<rparr>, \<lparr>name = ''a'', dependencies = []\<rparr>] [''a''] =
     Some (Some (ServiceLoadError (RepeatedServiceName [''a''])), []) \<and>
   load_definitions
     [\<lparr>name = ''x'', dependencies = [''e'']\<rparr>, \<lparr>name = ''b'', dependencies = []\<rparr>,
      \<lparr>name = ''b'', dependencies = []\<rparr>] [''e''] =
     Some (Some (ServiceLoadError (ExcludedDependency ''e'' ''x'')),
           [(''x'', \<lparr>name = ''x'', dependencies = [''e'']\<rparr>)])"
  by (simp add: load_definitions_def counter_incr_def counter_get_def)

subsection \<open>Dependencies on unknown names\<close>

text \<open>
  C10, as amended. When the scan raises nothing and no name is declared twice, a kept
  definition with a dependency that no definition declares makes \<open>load_definitions\<close>
  raise \<^verbatim>\<open>KeyError\<close> (not a \<^verbatim>\<open>ServiceLoadError\<close>) for a dependency that is neither declared
  nor excluded; by then \<^verbatim>\<open>all_by_name\<close> holds every kept definition under its name.
\<close>

theorem load_definitions_unknown_dependency:
  assumes "\<forall>s \<in> set services. name s \<notin> set exclude \<longrightarrow> (\<forall>d \<in> set (dependencies s). d \<notin> set exclude)"
    and "distinct (map name services)"
    and "s \<in> set services" and "name s \<notin> set exclude"
    and "d \<in> set (dependencies s)" and "d \<notin> name ` set services"
  shows "\<exists>k reg. load_definitions services exclude = Some (Some (KeyError k), reg) \<and>
           k \<notin> name ` set services \<and> k \<notin> set exclude \<and>
           fst ` set reg = name ` set services - set exclude \<and>
           (\<forall>s' \<in> set services. name s' \<notin> set exclude \<longrightarrow> map_of reg (name s') = Some s')"
proof -
  let ?reg = "fst (snd (scan_definitions exclude services [] []))"
  let ?multiples = "map fst (filter (\<lambda>(name, count). count > 1)
            (snd (snd (scan_definitions exclude services [] []))))"
  from assms(1) have ok: "no_excluded_dependency exclude services"
    unfolding no_excluded_dependency_iff .
  from assms(3) have nonempty: "services \<noteq> []" by auto
  from assms(2) have "{n. 1 < count_list (map name services) n} = {}"
    unfolding distinct_count_list by (auto simp: not_less)
  with scan_multiples [OF ok] have "set ?multiples = {}" by simp
  then have no_multiples: "?multiples = []" by (simp only: set_empty)
  have keys: "fst ` set ?reg = name ` set services - set exclude"
    using scan_definitions_keys [OF ok, of "[]" "[]"] by simp
  have lookup: "map_of ?reg (name s') = Some s'" if "s' \<in> set services" "name s' \<notin> set exclude" for s'
    using ok assms(2) that by (rule scan_definitions_lookup)
  from lookup [OF assms(3,4)] have "(name s, s) \<in> set ?reg" by (rule map_of_SomeD)
  then have "s \<in> set (map snd ?reg)" by force
  moreover from keys assms(6) have "map_of ?reg d = None"
    by (simp add: map_of_eq_None_iff)
  ultimately have "resolve_dependencies ?reg (map snd ?reg) \<noteq> None"
    unfolding resolve_dependencies_None using assms(5) by blast
  then obtain e where res: "resolve_dependencies ?reg (map snd ?reg) = Some e" by blast
  from resolve_dependencies_KeyError [OF this]
  obtain s' k where s': "s' \<in> set (map snd ?reg)" and k: "k \<in> set (dependencies s')"
    and missing: "map_of ?reg k = None" and e: "e = KeyError k"
    by blast
  from s' obtain n where "(n, s') \<in> set ?reg" by auto
  from scan_definitions_entries [OF this] have "s' \<in> set services" and "name s' \<notin> set exclude"
    by auto
  with assms(1) k have "k \<notin> set exclude" by blast
  moreover from missing keys have "k \<notin> name ` set services - set exclude"
    by (simp add: map_of_eq_None_iff)
  ultimately have "k \<notin> name ` set services" by blast
  from res e no_multiples have "load_definitions services exclude = Some (Some (KeyError k), ?reg)"
    unfolding load_definitions_after_scan [OF nonempty ok] by (simp add: Let_def)
  with \<open>k \<notin> name ` set services\<close> \<open>k \<notin> set exclude\<close> keys lookup show ?thesis by blast
qed

theorem load_definitions_unknown_dependency_witness:
  "\<exists>k reg.
     load_definitions [\<lparr>name = ''api'', dependencies = [''db'']\<rparr>, \<lparr>name = ''web'', dependencies = [''api'']\<rparr>] [] =
       Some (Some (KeyError k), reg) \<and> k \<noteq> ''api'' \<and> k \<noteq> ''web'' \<and>
     map_of reg ''web'' = Some \<lparr>name = ''web'', dependencies = [''api'']\<rparr>"
  using load_definitions_unknown_dependency
    [of "[\<lparr>name = ''api'', dependencies = [''db'']\<rparr>, \<lparr>name = ''web'', dependencies = [''api'']\<rparr>]" "[]"
        "\<lparr>name = ''api'', dependencies = [''db'']\<rparr>" "''db''"]
  by auto

text \<open>
  Against C10 as stated: with a name declared twice, the unknown dependency \<open>zz\<close> is never
  looked up, and the failure is that of the repeated name.
\<close>

theorem load_definitions_unknown_dependency_counterexample:
  "load_definitions
     [\<lparr>name = ''a'', dependencies = [''zz'']\<rparr>, \<lparr>name = ''b'', dependencies = []\<rparr>,
      \<lparr>name = ''b'', dependencies = []\<rparr>] [] =
     Some (Some (ServiceLoadError (RepeatedServiceName [''b''])),
           [(''a'', \<lparr>name = ''a'', dependencies = [''zz'']\<rparr>), (''b'', \<lparr>name = ''b'', dependencies = []\<rparr>)])"
  by (simp add: load_definitions_def counter_incr_def counter_get_def)

subsection \<open>A cycle that the check misses\<close>

text \<open>
  C1. The services \<open>a\<close> and \<open>b\<close> depend on each other, and both depend first on \<open>d\<close>,
  whose dependencies \<open>e\<close> and \<open>f\<close> share \<open>f\<close>. From either origin the walk through \<open>d\<close>
  spends the whole budget of five calls (\<open>a\<close>, \<open>d\<close>, \<open>e\<close>, \<open>f\<close>, \<open>f\<close> again), so the
  call for the other member of the cycle is never made: \<open>load_definitions\<close> returns
  without an exception.
\<close>

theorem load_definitions_misses_cycle:
  "load_definitions
     [\<lparr>name = ''a'', dependencies = [''d'', ''b'']\<rparr>, \<lparr>name = ''b'', dependencies = [''d'', ''a'']\<rparr>,
      \<lparr>name = ''d'', dependencies = [''e'', ''f'']\<rparr>, \<lparr>name = ''e'', dependencies = [''f'']\<rparr>,
      \<lparr>name = ''f'', dependencies = []\<rparr>] [] =
   Some (None,
     [(''a'', \<lparr>name = ''a'', dependencies = [''d'', ''b'']\<rparr>), (''b'', \<lparr>name = ''b'', dependencies = [''d'', ''a'']\<rparr>),
      (''d'', \<lparr>name = ''d'', dependencies = [''e'', ''f'']\<rparr>), (''e'', \<lparr>name = ''e'', dependencies = [''f'']\<rparr>),
      (''f'', \<lparr>name = ''f'', dependencies = []\<rparr>)])"
  by (simp add: load_definitions_def counter_incr_def counter_get_def
      check_circular_dependencies_def go_up_dependencies_def)

section \<open>Properties of the coordinator\<close>

subsection \<open>service\_started\<close>

lemma notify_waiting_eq:
  "notify_waiting started waiting startable =
     (map (\<lambda>(k, agent). (k, process_service_started started agent)) waiting,
      startable @ map fst (filter (\<lambda>(k, agent). can_start (process_service_started started agent)) waiting))"
proof (induction waiting arbitrary: startable)
  case Nil
  show ?case by simp
next
  case (Cons entry waiting)
  obtain k agent where entry: "entry = (k, agent)" by (cases entry)
  show ?case
    unfolding entry by (simp add: Cons.IH Let_def)
qed

lemma map_of_dict_del: "map_of (dict_del k d) k' = (if k' = k then None else map_of d k')"
  unfolding dict_del_def by (induction d) auto

lemma keys_dict_del: "map fst (dict_del k d) = filter (\<lambda>k'. k' \<noteq> k) (map fst d)"
  unfolding dict_del_def by (induction d) auto

lemma pop_startable_eq:
  assumes "distinct names" and "set names \<subseteq> fst ` set waiting"
  shows "pop_startable names waiting =
     (Inr (map (\<lambda>k. the (map_of waiting k)) names), filter (\<lambda>(k, agent). k \<notin> set names) waiting)"
  using assms
proof (induction names arbitrary: waiting)
  case Nil
  show ?case by simp
next
  case (Cons k names)
  from Cons.prems(2) have "k \<in> fst ` set waiting" by simp
  then obtain agent where agent: "map_of waiting k = Some agent"
    by (metis domD dom_map_of_conv_image_fst)
  from Cons.prems(1) have dist: "distinct names" and fresh: "k \<notin> set names" by simp_all
  from Cons.prems(2) fresh have sub: "set names \<subseteq> fst ` set (dict_del k waiting)"
    unfolding dict_del_def by force
  have same: "map (\<lambda>k'. the (map_of (dict_del k waiting) k')) names =
      map (\<lambda>k'. the (map_of waiting k')) names"
    using fresh by (auto simp: map_of_dict_del)
  have rest: "filter (\<lambda>(k', agent). k' \<notin> set names) (dict_del k waiting) =
      filter (\<lambda>(k', agent). k' \<notin> set (k # names)) waiting"
    unfolding dict_del_def by (induction waiting) auto
  from Cons.IH [OF dist sub] agent same rest show ?case by simp
qed

lemma map_of_distinct_filter:
  assumes "distinct (map fst d)"
  shows "map (\<lambda>k. the (map_of d k)) (map fst (filter P d)) = map snd (filter P d)"
proof -
  have "the (map_of d k) = v" if "(k, v) \<in> set (filter P d)" for k v
  proof -
    from that have "(k, v) \<in> set d" by simp
    with assms have "map_of d k = Some v" by simp
    then show ?thesis by simp
  qed
  then show ?thesis by (auto simp: comp_def)
qed

lemma filter_keys_distinct:
  assumes "distinct (map fst d)"
  shows "filter (\<lambda>(k, v). k \<notin> set (map fst (filter P d))) d = filter (\<lambda>x. \<not> P x) d"
proof (rule filter_cong [OF refl])
  fix x assume x: "x \<in> set d"
  obtain k v where kv: "x = (k, v)" by (cases x)
  have "k \<in> set (map fst (filter P d)) \<longleftrightarrow> P (k, v)"
  proof
    assume "k \<in> set (map fst (filter P d))"
    then obtain v' where "(k, v') \<in> set d" and "P (k, v')" by auto
    with assms x kv have "v' = v" by (metis eq_key_imp_eq_value)
    with \<open>P (k, v')\<close> show "P (k, v)" by simp
  next
    assume "P (k, v)"
    with x kv show "k \<in> set (map fst (filter P d))" by force
  qed
  with kv show "(case x of (k, v) \<Rightarrow> k \<notin> set (map fst (filter P d))) = (\<not> P x)" by simp
qed

lemma service_started_eq:
  assumes "started \<in> fst ` set (service_agents ctx)" and "distinct (map fst (waiting_agents ctx))"
  shows "service_started started ctx =
     (let notified = map (\<lambda>(k, agent). (k, process_service_started started agent)) (waiting_agents ctx)
      in (Inr (map snd (filter (\<lambda>(k, agent). can_start agent) notified)),
          ctx\<lparr>service_agents := map (\<lambda>(k, agent). (k, case map_of notified k of
                                       Some agent' \<Rightarrow> agent' | None \<Rightarrow> agent))
                                   (dict_del started (service_agents ctx)),
               waiting_agents := filter (\<lambda>(k, agent). \<not> can_start agent) notified\<rparr>))"
proof -
  define notified where
    "notified = map (\<lambda>(k, agent). (k, process_service_started started agent)) (waiting_agents ctx)"
  define startable where "startable = map fst (filter (\<lambda>(k, agent). can_start agent) notified)"
  have keys: "map fst notified = map fst (waiting_agents ctx)"
    unfolding notified_def by (induction "waiting_agents ctx") auto
  with assms(2) have dist: "distinct (map fst notified)" by simp
  have nw: "notify_waiting started (waiting_agents ctx) [] = (notified, startable)"
    unfolding notify_waiting_eq notified_def startable_def
    by (simp add: filter_map comp_def case_prod_unfold)
  from dist have "distinct startable"
    unfolding startable_def by (rule distinct_map_filter)
  moreover have "set startable \<subseteq> fst ` set notified"
    unfolding startable_def by auto
  ultimately have "pop_startable startable notified =
      (Inr (map (\<lambda>k. the (map_of notified k)) startable),
       filter (\<lambda>(k, agent). k \<notin> set startable) notified)"
    by (rule pop_startable_eq)
  also have "map (\<lambda>k. the (map_of notified k)) startable =
      map snd (filter (\<lambda>(k, agent). can_start agent) notified)"
    unfolding startable_def using dist by (rule map_of_distinct_filter)
  also have "filter (\<lambda>(k, agent). k \<notin> set startable) notified =
      filter (\<lambda>x. \<not> (case x of (k, agent) \<Rightarrow> can_start agent)) notified"
    unfolding startable_def using dist by (rule filter_keys_distinct)
  finally have pop: "pop_startable startable notified =
      (Inr (map snd (filter (\<lambda>(k, agent). can_start agent) notified)),
       filter (\<lambda>(k, agent). \<not> can_start agent) notified)"
    by (simp add: case_prod_unfold)
  from assms(1) obtain a where "map_of (service_agents ctx) started = Some a"
    by (metis domD dom_map_of_conv_image_fst)
  with nw pop show ?thesis
    unfolding service_started_def notified_def [symmetric] by (simp add: Let_def)
qed

lemma can_start_process_service_started:
  "can_start (process_service_started started agent) \<longleftrightarrow> set (open_dependencies agent) \<subseteq> {started}"
proof -
  have "removeAll started xs = [] \<longleftrightarrow> set xs \<subseteq> {started}" for xs :: "string list"
    by (induction xs) auto
  then show ?thesis
    by (simp add: can_start_def process_service_started_def)
qed

text \<open>
  C6. For every context whose waiting map is a dict (no key twice) and every started name
  that is a key of \<^verbatim>\<open>service_agents\<close>, \<open>service_started\<close> raises nothing, removes that key
  from \<^verbatim>\<open>service_agents\<close>, notifies every waiting agent, returns in order exactly the
  notified agents that can start, and leaves exactly the others waiting, all of them
  notified. A notified agent can start iff it had no open dependency but the started name.
\<close>

theorem service_started_unlocks:
  assumes "started \<in> fst ` set (service_agents ctx)" and "distinct (map fst (waiting_agents ctx))"
  shows "\<exists>ctx'. service_started started ctx =
           (Inr (map snd (filter (\<lambda>(k, agent). can_start agent)
                   (map (\<lambda>(k, agent). (k, process_service_started started agent)) (waiting_agents ctx)))),
            ctx') \<and>
         map fst (service_agents ctx') = filter (\<lambda>k. k \<noteq> started) (map fst (service_agents ctx)) \<and>
         waiting_agents ctx' =
           filter (\<lambda>(k, agent). \<not> can_start agent)
             (map (\<lambda>(k, agent). (k, process_service_started started agent)) (waiting_agents ctx)) \<and>
         (\<forall>agent. can_start (process_service_started started agent) \<longleftrightarrow>
            set (open_dependencies agent) \<subseteq> {started})"
proof -
  let ?notified = "map (\<lambda>(k, agent). (k, process_service_started started agent)) (waiting_agents ctx)"
  let ?active = "map (\<lambda>(k, agent). (k, case map_of ?notified k of
                                       Some agent' \<Rightarrow> agent' | None \<Rightarrow> agent))
                                   (dict_del started (service_agents ctx))"
  let ?ctx' = "ctx\<lparr>service_agents := ?active,
                   waiting_agents := filter (\<lambda>(k, agent). \<not> can_start agent) ?notified\<rparr>"
  from service_started_eq [OF assms]
  have "service_started started ctx =
      (Inr (map snd (filter (\<lambda>(k, agent). can_start agent) ?notified)), ?ctx')"
    by (simp only: Let_def)
  moreover have "map fst ?active = map fst (dict_del started (service_agents ctx))"
    by (simp add: comp_def case_prod_unfold)
  then have "map fst (service_agents ?ctx') = filter (\<lambda>k. k \<noteq> started) (map fst (service_agents ctx))"
    by (simp add: keys_dict_del)
  moreover have "waiting_agents ?ctx' = filter (\<lambda>(k, agent). \<not> can_start agent) ?notified"
    by simp
  ultimately show ?thesis
    using can_start_process_service_started by blast
qed

theorem service_started_unlocks_witness:
  "\<exists>ctx'. service_started ''db''
       (RunningContext [(''db'', \<lparr>name = ''db'', dependencies = []\<rparr>),
                        (''api'', \<lparr>name = ''api'', dependencies = [''db'']\<rparr>),
                        (''web'', \<lparr>name = ''web'', dependencies = [''api'']\<rparr>)]) =
      (Inr [\<lparr>agent_service = \<lparr>name = ''api'', dependencies = [''db'']\<rparr>, open_dependencies = []\<rparr>], ctx') \<and>
     map fst (service_agents ctx') = [''api'', ''web''] \<and>
     waiting_agents ctx' =
       [(''web'', \<lparr>agent_service = \<lparr>name = ''web'', dependencies = [''api'']\<rparr>,
                   open_dependencies = [''api'']\<rparr>)]"
proof -
  let ?ctx = "RunningContext [(''db'', \<lparr>name = ''db'', dependencies = []\<rparr>),
                        (''api'', \<lparr>name = ''api'', dependencies = [''db'']\<rparr>),
                        (''web'', \<lparr>name = ''web'', dependencies = [''api'']\<rparr>)]"
  have active: "''db'' \<in> fst ` set (service_agents ?ctx)"
    by (simp add: RunningContext_def)
  have dict: "distinct (map fst (waiting_agents ?ctx))"
    by (simp add: RunningContext_def ServiceAgent_def can_start_def)
  from service_started_unlocks [OF active dict] show ?thesis
    by (simp add: RunningContext_def ServiceAgent_def can_start_def process_service_started_def)
      (elim exE conjE, intro exI conjI, assumption+)
qed

subsection \<open>The invariant of a run\<close>

lemma named_keys:
  fixes entries :: "(string \<times> service_agent) list"
  assumes "list_all (\<lambda>(k, agent). name (agent_service agent) = k) entries"
  shows "map (\<lambda>agent. name (agent_service agent)) (map snd (filter P entries)) =
      map fst (filter P entries)"
  using assms
proof (induction entries)
  case Nil
  show ?case by simp
next
  case (Cons x xs)
  obtain k a where x: "x = (k, a)" by (cases x)
  from Cons.prems have head: "name (agent_service a) = k"
    and tail: "list_all (\<lambda>(k, agent). name (agent_service agent) = k) xs"
    unfolding x by simp_all
  from Cons.IH [OF tail] head show ?case
    unfolding x by (cases "P (k, a)") simp_all
qed

lemma filter_keys_subset: "set (map fst (filter Q entries)) \<subseteq> set (map fst entries)"
  by auto

lemma filter_keys_disjoint:
  assumes "distinct (map fst entries)"
  shows "set (map fst (filter P entries)) \<inter> set (map fst (filter (\<lambda>x. \<not> P x) entries)) = {}"
proof (rule ccontr)
  assume "\<not> ?thesis"
  then obtain k where "k \<in> set (map fst (filter P entries))"
    and "k \<in> set (map fst (filter (\<lambda>x. \<not> P x) entries))" by blast
  then obtain a b where a: "(k, a) \<in> set entries" "P (k, a)"
    and b: "(k, b) \<in> set entries" "\<not> P (k, b)" by auto
  from assms a(1) b(1) have "a = b" by (rule eq_key_imp_eq_value)
  with a(2) b(2) show False by simp
qed

lemma launch_partition:
  fixes entries :: "(string \<times> service_agent) list"
  assumes dict: "distinct (map fst entries)"
    and named: "list_all (\<lambda>(k, agent). name (agent_service agent) = k) entries"
    and log: "distinct log" and fresh: "set log \<inter> set (map fst entries) = {}"
  shows "distinct (map fst (filter (\<lambda>x. \<not> P x) entries)) \<and>
     list_all (\<lambda>(k, agent). name (agent_service agent) = k) (filter (\<lambda>x. \<not> P x) entries) \<and>
     distinct (log @ map (\<lambda>agent. name (agent_service agent)) (map snd (filter P entries))) \<and>
     set (log @ map (\<lambda>agent. name (agent_service agent)) (map snd (filter P entries))) \<inter>
           set (map fst (filter (\<lambda>x. \<not> P x) entries)) = {}"
proof (intro conjI)
  note names = named_keys [OF named, of P]
  from dict have dA: "distinct (map fst (filter P entries))"
    by (rule distinct_map_filter)
  from dict show "distinct (map fst (filter (\<lambda>x. \<not> P x) entries))"
    by (rule distinct_map_filter)
  note subA = filter_keys_subset [of P entries]
  note subB = filter_keys_subset [of "\<lambda>x. \<not> P x" entries]
  note disj = filter_keys_disjoint [OF dict, of P]
  from fresh subA have "set log \<inter> set (map fst (filter P entries)) = {}" by blast
  with log dA
  show "distinct (log @ map (\<lambda>agent. name (agent_service agent)) (map snd (filter P entries)))"
    unfolding names by (simp only: distinct_append simp_thms)
  from fresh subB have "set log \<inter> set (map fst (filter (\<lambda>x. \<not> P x) entries)) = {}" by blast
  with disj
  show "set (log @ map (\<lambda>agent. name (agent_service agent)) (map snd (filter P entries))) \<inter>
           set (map fst (filter (\<lambda>x. \<not> P x) entries)) = {}"
    unfolding names set_append by blast
  from named show "list_all (\<lambda>(k, agent). name (agent_service agent) = k) (filter (\<lambda>x. \<not> P x) entries)"
    unfolding list_all_iff by simp
qed

lemma notified_keys:
  "map fst (map (\<lambda>(k, agent). (k, process_service_started started agent)) waiting) = map fst waiting"
  by (simp add: comp_def case_prod_unfold)

lemma notified_named:
  fixes waiting :: "(string \<times> service_agent) list"
  assumes "list_all (\<lambda>(k, agent). name (agent_service agent) = k) waiting"
  shows "list_all (\<lambda>(k, agent). name (agent_service agent) = k)
     (map (\<lambda>(k, agent). (k, process_service_started started agent)) waiting)"
proof -
  have "agent_service (process_service_started started agent) = agent_service agent" for agent
    by (simp add: process_service_started_def)
  with assms show ?thesis
    unfolding list_all_iff by (simp add: case_prod_unfold)
qed

lemma start_next_unknown:
  assumes "running_context c = Some ctx" and "started \<notin> fst ` set (service_agents ctx)"
  shows "start_next started c = (Some (KeyError started), c)"
proof -
  from assms(2) have "map_of (service_agents ctx) started = None"
    by (simp add: map_of_eq_None_iff)
  with assms(1) show ?thesis
    by (simp add: start_next_def service_started_def)
qed

lemma start_next_known:
  assumes "running_context c = Some ctx" and "started \<in> fst ` set (service_agents ctx)"
    and "distinct (map fst (waiting_agents ctx))"
  shows "start_next started c =
     (None, c\<lparr>running_context := Some (snd (service_started started ctx)),
              launched := launched c @ map (\<lambda>agent. name (agent_service agent))
                (map snd (filter (\<lambda>(k, agent). can_start agent)
                   (map (\<lambda>(k, agent). (k, process_service_started started agent)) (waiting_agents ctx))))\<rparr>)"
    and "waiting_agents (snd (service_started started ctx)) =
           filter (\<lambda>(k, agent). \<not> can_start agent)
             (map (\<lambda>(k, agent). (k, process_service_started started agent)) (waiting_agents ctx))"
  using assms(1) service_started_eq [OF assms(2,3)]
  by (simp_all add: start_next_def start_agents_def Let_def)

lemma coordinator_invI:
  assumes "running_context c = Some ctx"
    and "distinct (map fst (waiting_agents ctx))"
    and "list_all (\<lambda>(k, agent). name (agent_service agent) = k) (waiting_agents ctx)"
    and "distinct (launched c)"
    and "set (launched c) \<inter> set (map fst (waiting_agents ctx)) = {}"
  shows "coordinator_inv c"
  unfolding coordinator_inv_def assms(1) option.case using assms(2-5) by (intro conjI)

lemma coordinator_invD:
  assumes "coordinator_inv c"
  obtains ctx where "running_context c = Some ctx"
    and "distinct (map fst (waiting_agents ctx))"
    and "list_all (\<lambda>(k, agent). name (agent_service agent) = k) (waiting_agents ctx)"
    and "distinct (launched c)"
    and "set (launched c) \<inter> set (map fst (waiting_agents ctx)) = {}"
proof (cases "running_context c")
  case None
  with assms show ?thesis by (simp add: coordinator_inv_def)
next
  case (Some ctx)
  with assms have "distinct (map fst (waiting_agents ctx)) \<and>
          list_all (\<lambda>(k, agent). name (agent_service agent) = k) (waiting_agents ctx) \<and>
          distinct (launched c) \<and>
          set (launched c) \<inter> set (map fst (waiting_agents ctx)) = {}"
    unfolding coordinator_inv_def by (simp only: option.case)
  with Some that show ?thesis by blast
qed

lemma step_inv:
  assumes "coordinator_inv c"
  shows "coordinator_inv (step c e)"
proof (cases e)
  case (Failed n)
  from assms obtain ctx where "running_context c = Some ctx"
    and "distinct (map fst (waiting_agents ctx))"
    and "list_all (\<lambda>(k, agent). name (agent_service agent) = k) (waiting_agents ctx)"
    and "distinct (launched c)"
    and "set (launched c) \<inter> set (map fst (waiting_agents ctx)) = {}"
    by (rule coordinator_invD)
  then have "coordinator_inv (c\<lparr>failed := True\<rparr>)"
    by (intro coordinator_invI [of _ ctx]) simp_all
  with Failed show ?thesis by (simp add: service_failed_def)
next
  case (Started started)
  from assms obtain ctx where ctx: "running_context c = Some ctx"
    and dict: "distinct (map fst (waiting_agents ctx))"
    and named: "list_all (\<lambda>(k, agent). name (agent_service agent) = k) (waiting_agents ctx)"
    and log: "distinct (launched c)"
    and fresh: "set (launched c) \<inter> set (map fst (waiting_agents ctx)) = {}"
    by (rule coordinator_invD)
  show ?thesis
  proof (cases "started \<in> fst ` set (service_agents ctx)")
    case False
    with ctx have "start_next started c = (Some (KeyError started), c)"
      by (rule start_next_unknown)
    with Started assms show ?thesis by simp
  next
    case True
    let ?notified = "map (\<lambda>(k, agent). (k, process_service_started started agent)) (waiting_agents ctx)"
    let ?P = "\<lambda>(k, agent). can_start agent"
    let ?ctx' = "snd (service_started started ctx)"
    let ?log' = "launched c @ map (\<lambda>agent. name (agent_service agent)) (map snd (filter ?P ?notified))"
    let ?c' = "c\<lparr>running_context := Some ?ctx', launched := ?log'\<rparr>"
    from start_next_known [OF ctx True dict]
    have next_eq: "start_next started c = (None, ?c')"
      and "waiting_agents ?ctx' = filter (\<lambda>(k, agent). \<not> can_start agent) ?notified"
      by simp_all
    then have waiting: "waiting_agents ?ctx' = filter (\<lambda>x. \<not> ?P x) ?notified"
      by (simp add: case_prod_unfold)
    from dict have "distinct (map fst ?notified)" by (simp only: notified_keys)
    moreover from named have "list_all (\<lambda>(k, agent). name (agent_service agent) = k) ?notified"
      by (rule notified_named)
    moreover note log
    moreover from fresh have "set (launched c) \<inter> set (map fst ?notified) = {}"
      by (simp only: notified_keys)
    ultimately have part: "distinct (map fst (filter (\<lambda>x. \<not> ?P x) ?notified)) \<and>
     list_all (\<lambda>(k, agent). name (agent_service agent) = k) (filter (\<lambda>x. \<not> ?P x) ?notified) \<and>
     distinct ?log' \<and> set ?log' \<inter> set (map fst (filter (\<lambda>x. \<not> ?P x) ?notified)) = {}"
      by (rule launch_partition)
    have "coordinator_inv ?c'"
    proof (rule coordinator_invI [of _ ?ctx'])
      show "running_context ?c' = Some ?ctx'" by simp
      from part show "distinct (map fst (waiting_agents ?ctx'))"
        unfolding waiting by (rule conjunct1)
      from part show "list_all (\<lambda>(k, agent). name (agent_service agent) = k) (waiting_agents ?ctx')"
        unfolding waiting by blast
      have log': "launched ?c' = ?log'" by simp
      from part show "distinct (launched ?c')"
        unfolding log' by blast
      from part show "set (launched ?c') \<inter> set (map fst (waiting_agents ?ctx')) = {}"
        unfolding log' waiting by blast
    qed
    with Started next_eq show ?thesis by simp
  qed
qed

lemma run_inv: "coordinator_inv c \<Longrightarrow> coordinator_inv (run c events)"
proof (induction events arbitrary: c)
  case Nil
  then show ?case by simp
next
  case (Cons e events)
  from Cons.prems have "coordinator_inv (step c e)" by (rule step_inv)
  then have "coordinator_inv (run (step c e) events)" by (rule Cons.IH)
  then show ?case by simp
qed

lemma start_all_launch_inv:
  assumes "distinct (map fst reg)" and "list_all (\<lambda>(k, s). name s = k) reg"
  shows "coordinator_inv (start_all_launch (ServiceCollection\<lparr>all_by_name := reg\<rparr>))"
proof -
  let ?agents = "map (\<lambda>(k, s). (k, ServiceAgent s)) reg"
  let ?P = "\<lambda>(k, agent). can_start agent"
  let ?ctx = "RunningContext reg"
  let ?log = "[] @ map (\<lambda>agent. name (agent_service agent)) (map snd (filter ?P ?agents))"
  let ?c = "start_all_launch (ServiceCollection\<lparr>all_by_name := reg\<rparr>)"
  have keys: "map fst ?agents = map fst reg"
    by (simp add: comp_def case_prod_unfold)
  have "agent_service (ServiceAgent s) = s" for s
    by (simp add: ServiceAgent_def)
  with assms(2) have named: "list_all (\<lambda>(k, agent). name (agent_service agent) = k) ?agents"
    unfolding list_all_iff by (simp add: case_prod_unfold)
  have without: "without_dependencies ?ctx = map snd (filter ?P ?agents)"
    by (simp add: RunningContext_def Let_def filter_map comp_def case_prod_unfold)
  have waiting: "waiting_agents ?ctx = filter (\<lambda>x. \<not> ?P x) ?agents"
    by (simp add: RunningContext_def Let_def case_prod_unfold)
  have rc: "running_context ?c = Some ?ctx"
    by (simp add: start_all_launch_def start_agents_def Let_def)
  have log: "launched ?c = ?log"
    by (simp add: start_all_launch_def start_agents_def Let_def ServiceCollection_def without)
  from assms(1) have "distinct (map fst ?agents)" by (simp only: keys)
  moreover note named
  moreover have "distinct ([] :: string list)" by simp
  moreover have "set ([] :: string list) \<inter> set (map fst ?agents) = {}" by simp
  ultimately have part: "distinct (map fst (filter (\<lambda>x. \<not> ?P x) ?agents)) \<and>
     list_all (\<lambda>(k, agent). name (agent_service agent) = k) (filter (\<lambda>x. \<not> ?P x) ?agents) \<and>
     distinct ?log \<and> set ?log \<inter> set (map fst (filter (\<lambda>x. \<not> ?P x) ?agents)) = {}"
    by (rule launch_partition)
  show ?thesis
  proof (rule coordinator_invI [of _ ?ctx])
    show "running_context ?c = Some ?ctx" by (rule rc)
    from part show "distinct (map fst (waiting_agents ?ctx))"
      unfolding waiting by (rule conjunct1)
    from part show "list_all (\<lambda>(k, agent). name (agent_service agent) = k) (waiting_agents ?ctx)"
      unfolding waiting by blast
    from part show "distinct (launched ?c)"
      unfolding log by blast
    from part show "set (launched ?c) \<inter> set (map fst (waiting_agents ?ctx)) = {}"
      unfolding log waiting by blast
  qed
qed

subsection \<open>No agent is launched twice\<close>

lemma scan_definitions_distinct:
  assumes "distinct (map fst reg)"
  shows "distinct (map fst (fst (snd (scan_definitions exclude services reg counter))))"
  using assms
proof (induction services arbitrary: reg counter)
  case Nil
  then show ?case by simp
next
  case (Cons x xs)
  from Cons.prems have set': "distinct (map fst (dict_set (name x) x reg))"
    by (rule distinct_dict_set)
  show ?case
  proof (cases "name x \<in> set exclude")
    case True
    with Cons.IH [OF Cons.prems] show ?thesis by simp
  next
    case False
    show ?thesis
    proof (cases "filter (\<lambda>dep. dep \<in> set exclude) (dependencies x) = []")
      case True
      with False Cons.IH [OF set'] show ?thesis by (simp add: Let_def)
    next
      case nonempty: False
      with False set' show ?thesis by (simp add: Let_def)
    qed
  qed
qed

lemma load_definitions_registry_dict:
  assumes "load_definitions services exclude = Some (e, reg)"
  shows "distinct (map fst reg)" and "list_all (\<lambda>(k, s). name s = k) reg"
proof -
  have "distinct (map fst (fst (snd (scan_definitions exclude services [] []))))"
    by (rule scan_definitions_distinct) simp
  with load_definitions_registry [OF assms] show "distinct (map fst reg)" by auto
  have "name s = k" if "(k, s) \<in> set reg" for k s
    using load_definitions_registry_not_excluded [OF assms that] by simp
  then show "list_all (\<lambda>(k, s). name s = k) reg"
    unfolding list_all_iff by blast
qed

lemma loaded_run_inv:
  assumes "load_definitions services exclude = Some (e, reg)"
  shows "coordinator_inv (run (start_all_launch (ServiceCollection\<lparr>all_by_name := reg\<rparr>)) events)"
  by (intro run_inv start_all_launch_inv load_definitions_registry_dict [OF assms])

lemma step_waiting_names:
  assumes "coordinator_inv c"
  shows "set (waiting_names (step c e)) \<subseteq> set (waiting_names c)"
proof (cases e)
  case (Failed n)
  then show ?thesis by (simp add: waiting_names_def service_failed_def)
next
  case (Started started)
  from assms obtain ctx where ctx: "running_context c = Some ctx"
    and dict: "distinct (map fst (waiting_agents ctx))"
    by (rule coordinator_invD)
  show ?thesis
  proof (cases "started \<in> fst ` set (service_agents ctx)")
    case False
    with ctx have "start_next started c = (Some (KeyError started), c)"
      by (rule start_next_unknown)
    with Started show ?thesis by simp
  next
    case True
    let ?notified = "map (\<lambda>(k, agent). (k, process_service_started started agent)) (waiting_agents ctx)"
    from start_next_known [OF ctx True dict] Started
    have "waiting_names (step c e) = map fst (filter (\<lambda>(k, agent). \<not> can_start agent) ?notified)"
      by (simp add: waiting_names_def)
    also have "set \<dots> \<subseteq> set (map fst ?notified)"
      by (rule filter_keys_subset)
    also have "map fst ?notified = waiting_names c"
      unfolding notified_keys using ctx by (simp add: waiting_names_def)
    finally show ?thesis .
  qed
qed

lemma run_waiting_names:
  assumes "coordinator_inv c"
  shows "set (waiting_names (run c events)) \<subseteq> set (waiting_names c)"
  using assms
proof (induction events arbitrary: c)
  case Nil
  show ?case by simp
next
  case (Cons e events)
  from Cons.prems have "coordinator_inv (step c e)" by (rule step_inv)
  then have "set (waiting_names (run (step c e) events)) \<subseteq> set (waiting_names (step c e))"
    by (rule Cons.IH)
  also from Cons.prems have "\<dots> \<subseteq> set (waiting_names c)" by (rule step_waiting_names)
  finally show ?case by simp
qed

lemma run_append: "run c (es1 @ es2) = run (run c es1) es2"
  by (induction es1 arbitrary: c) simp_all

lemma inv_launched_not_waiting:
  assumes "coordinator_inv c"
  shows "distinct (launched c)" and "set (launched c) \<inter> set (waiting_names c) = {}"
proof -
  from assms obtain ctx where "running_context c = Some ctx"
    and "distinct (launched c)"
    and "set (launched c) \<inter> set (map fst (waiting_agents ctx)) = {}"
    by (rule coordinator_invD)
  then show "distinct (launched c)" and "set (launched c) \<inter> set (waiting_names c) = {}"
    by (simp_all add: waiting_names_def)
qed

text \<open>
  C7. In a run on a loaded collection, whatever the agents report and in whatever order,
  no name occurs twice in the log of launches: neither among the agents launched by
  \<^verbatim>\<open>start_all\<close> nor among those returned as newly startable by \<^verbatim>\<open>service_started\<close> and
  launched by \<^verbatim>\<open>start_next\<close>. A launched agent is not waiting, and the names waiting after
  a run are among those waiting after any of its prefixes: no name comes back into the
  waiting map.
\<close>

theorem no_agent_launched_twice:
  fixes reg :: registry
  defines "c0 \<equiv> start_all_launch (ServiceCollection\<lparr>all_by_name := reg\<rparr>)"
  assumes "load_definitions services exclude = Some (None, reg)"
  shows "distinct (launched (run c0 events)) \<and>
    set (launched (run c0 events)) \<inter> set (waiting_names (run c0 events)) = {} \<and>
    (\<forall>es1 es2. events = es1 @ es2 \<longrightarrow>
       set (waiting_names (run c0 events)) \<subseteq> set (waiting_names (run c0 es1)))"
proof (intro conjI allI impI)
  note inv = loaded_run_inv [OF assms(2), folded c0_def]
  from inv [of events] show "distinct (launched (run c0 events))"
    by (rule inv_launched_not_waiting)
  from inv [of events] show "set (launched (run c0 events)) \<inter> set (waiting_names (run c0 events)) = {}"
    by (rule inv_launched_not_waiting)
  fix es1 es2
  assume "events = es1 @ es2"
  then have "run c0 events = run (run c0 es1) es2" by (simp only: run_append)
  moreover from inv [of es1]
  have "set (waiting_names (run (run c0 es1) es2)) \<subseteq> set (waiting_names (run c0 es1))"
    by (rule run_waiting_names)
  ultimately show "set (waiting_names (run c0 events)) \<subseteq> set (waiting_names (run c0 es1))"
    by simp
qed

text \<open>The definitions that a concrete run unfolds.\<close>

lemmas run_simps =
  start_all_launch_def RunningContext_def ServiceCollection_def ServiceAgent_def start_agents_def
  start_next_def service_started_def service_failed_def dict_del_def can_start_def
  process_service_started_def Let_def

lemma load_three:
  "load_definitions
     [\<lparr>name = ''db'', dependencies = []\<rparr>, \<lparr>name = ''api'', dependencies = [''db'']\<rparr>,
      \<lparr>name = ''web'', dependencies = [''api'']\<rparr>] [] =
   Some (None, [(''db'', \<lparr>name = ''db'', dependencies = []\<rparr>),
                (''api'', \<lparr>name = ''api'', dependencies = [''db'']\<rparr>),
                (''web'', \<lparr>name = ''web'', dependencies = [''api'']\<rparr>)])"
  by (simp add: load_definitions_def counter_incr_def counter_get_def
      check_circular_dependencies_def go_up_dependencies_def)

theorem no_agent_launched_twice_witness:
  "distinct (launched (run (start_all_launch (ServiceCollection\<lparr>all_by_name :=
       [(''db'', \<lparr>name = ''db'', dependencies = []\<rparr>),
        (''api'', \<lparr>name = ''api'', dependencies = [''db'']\<rparr>),
        (''web'', \<lparr>name = ''web'', dependencies = [''api'']\<rparr>)]\<rparr>))
     [Started ''db'', Started ''api'', Started ''db'', Started ''web''])) \<and>
   launched (run (start_all_launch (ServiceCollection\<lparr>all_by_name :=
       [(''db'', \<lparr>name = ''db'', dependencies = []\<rparr>),
        (''api'', \<lparr>name = ''api'', dependencies = [''db'']\<rparr>),
        (''web'', \<lparr>name = ''web'', dependencies = [''api'']\<rparr>)]\<rparr>))
     [Started ''db'', Started ''api'', Started ''db'', Started ''web'']) = [''db'', ''api'', ''web'']"
proof -
  from no_agent_launched_twice [OF load_three,
      of "[Started ''db'', Started ''api'', Started ''db'', Started ''web'']"]
  have "distinct (launched (run (start_all_launch (ServiceCollection\<lparr>all_by_name :=
       [(''db'', \<lparr>name = ''db'', dependencies = []\<rparr>),
        (''api'', \<lparr>name = ''api'', dependencies = [''db'']\<rparr>),
        (''web'', \<lparr>name = ''web'', dependencies = [''api'']\<rparr>)]\<rparr>))
     [Started ''db'', Started ''api'', Started ''db'', Started ''web'']))"
    by (rule conjunct1)
  moreover have "launched (run (start_all_launch (ServiceCollection\<lparr>all_by_name :=
       [(''db'', \<lparr>name = ''db'', dependencies = []\<rparr>),
        (''api'', \<lparr>name = ''api'', dependencies = [''db'']\<rparr>),
        (''web'', \<lparr>name = ''web'', dependencies = [''api'']\<rparr>)]\<rparr>))
     [Started ''db'', Started ''api'', Started ''db'', Started ''web'']) = [''db'', ''api'', ''web'']"
    by (simp add: run_simps)
  ultimately show ?thesis by (rule conjI)
qed

subsection \<open>After a failure\<close>

lemma start_next_failed:
  "start_next m (c\<lparr>failed := True\<rparr>) = (fst (start_next m c), (snd (start_next m c))\<lparr>failed := True\<rparr>)"
  by (simp add: start_next_def start_agents_def split: option.split prod.split sum.split)

lemma step_failed: "failed c \<Longrightarrow> failed (step c e)"
  by (cases e)
    (simp_all add: start_next_def start_agents_def service_failed_def
      split: option.split prod.split sum.split)

lemma run_failed: "failed c \<Longrightarrow> failed (run c events)"
proof (induction events arbitrary: c)
  case Nil
  then show ?case by simp
next
  case (Cons e events)
  from Cons.prems have "failed (step c e)" by (rule step_failed)
  then have "failed (run (step c e) events)" by (rule Cons.IH)
  then show ?case by simp
qed

lemma step_keeps_blocked:
  assumes inv: "coordinator_inv c" and ctx: "running_context c = Some ctx"
    and waiting: "(k, agent) \<in> set (waiting_agents ctx)"
    and dep: "d \<in> set (open_dependencies agent)" and e: "e \<noteq> Started d"
  shows "\<exists>ctx' agent'. running_context (step c e) = Some ctx' \<and>
           (k, agent') \<in> set (waiting_agents ctx') \<and> d \<in> set (open_dependencies agent')"
proof (cases e)
  case (Failed n)
  with ctx waiting dep show ?thesis
    by (auto simp: service_failed_def)
next
  case (Started started)
  with e have ne: "started \<noteq> d" by simp
  from inv ctx have dict: "distinct (map fst (waiting_agents ctx))"
    by (auto elim: coordinator_invD)
  show ?thesis
  proof (cases "started \<in> fst ` set (service_agents ctx)")
    case False
    with ctx have "start_next started c = (Some (KeyError started), c)"
      by (rule start_next_unknown)
    with Started ctx waiting dep show ?thesis by auto
  next
    case True
    let ?agent' = "process_service_started started agent"
    let ?notified = "map (\<lambda>(k, agent). (k, process_service_started started agent)) (waiting_agents ctx)"
    let ?ctx' = "snd (service_started started ctx)"
    from start_next_known [OF ctx True dict] Started
    have rc: "running_context (step c e) = Some ?ctx'"
      and w: "waiting_agents ?ctx' = filter (\<lambda>(k, agent). \<not> can_start agent) ?notified"
      by simp_all
    from dep ne have open': "d \<in> set (open_dependencies ?agent')"
      by (simp add: process_service_started_def)
    then have "\<not> can_start ?agent'"
      by (auto simp: can_start_def)
    moreover from waiting have "(k, ?agent') \<in> set ?notified" by force
    ultimately have "(k, ?agent') \<in> set (waiting_agents ?ctx')"
      unfolding w by simp
    with rc open' show ?thesis by blast
  qed
qed

lemma run_keeps_blocked:
  assumes "coordinator_inv c" and "running_context c = Some ctx"
    and "(k, agent) \<in> set (waiting_agents ctx)"
    and "d \<in> set (open_dependencies agent)" and "Started d \<notin> set events"
  shows "\<exists>ctx' agent'. running_context (run c events) = Some ctx' \<and>
           (k, agent') \<in> set (waiting_agents ctx') \<and> d \<in> set (open_dependencies agent')"
  using assms
proof (induction events arbitrary: c ctx agent)
  case Nil
  then show ?case by auto
next
  case (Cons e events)
  from Cons.prems(5) have e: "e \<noteq> Started d" and rest: "Started d \<notin> set events" by auto
  from step_keeps_blocked [OF Cons.prems(1-4) e]
  obtain ctx' agent' where "running_context (step c e) = Some ctx'"
    and "(k, agent') \<in> set (waiting_agents ctx')" and "d \<in> set (open_dependencies agent')"
    by blast
  moreover from Cons.prems(1) have "coordinator_inv (step c e)" by (rule step_inv)
  ultimately have "\<exists>ctx' agent'. running_context (run (step c e) events) = Some ctx' \<and>
           (k, agent') \<in> set (waiting_agents ctx') \<and> d \<in> set (open_dependencies agent')"
    using rest by (intro Cons.IH)
  then show ?case by simp
qed

lemma service_failed_inv: "coordinator_inv c \<Longrightarrow> coordinator_inv (service_failed n c)"
  using step_inv [of c "Failed n"] by simp

text \<open>
  C3, as amended. \<^verbatim>\<open>service_failed\<close> sets \<^verbatim>\<open>failed\<close> and nothing else: it launches no agent
  and leaves the context as it is; \<^verbatim>\<open>failed\<close> then stays set through every later report.
  \<^verbatim>\<open>start_next\<close> does not read \<^verbatim>\<open>failed\<close>: it does after the failure what it does before
  it. What is never launched is an agent waiting for a service that does not report
  \<^verbatim>\<open>start_next\<close> afterwards, such as the failed one: it stays in the waiting map.
\<close>

theorem service_failed_blocks_dependents:
  fixes reg :: registry and before after :: "event list" and n :: string
  defines "c \<equiv> run (start_all_launch (ServiceCollection\<lparr>all_by_name := reg\<rparr>)) before"
  defines "c' \<equiv> run (service_failed n c) after"
  assumes "load_definitions services exclude = Some (None, reg)"
    and "running_context c = Some ctx"
    and "(k, agent) \<in> set (waiting_agents ctx)"
    and "d \<in> set (open_dependencies agent)"
    and "Started d \<notin> set after"
  shows "failed c' \<and>
    launched (service_failed n c) = launched c \<and>
    running_context (service_failed n c) = Some ctx \<and>
    k \<in> set (waiting_names c') \<and>
    k \<notin> set (launched c') \<and>
    (\<forall>m. start_next m (service_failed n c) =
       (fst (start_next m c), service_failed n (snd (start_next m c))))"
proof -
  have inv: "coordinator_inv c"
    unfolding c_def using assms(3) by (rule loaded_run_inv)
  then have inv_f: "coordinator_inv (service_failed n c)" by (rule service_failed_inv)
  then have inv': "coordinator_inv c'" unfolding c'_def by (rule run_inv)
  have "failed (service_failed n c)" by (simp add: service_failed_def)
  then have 1: "failed c'" unfolding c'_def by (rule run_failed)
  have 2: "launched (service_failed n c) = launched c" by (simp add: service_failed_def)
  from assms(4) have 3: "running_context (service_failed n c) = Some ctx"
    by (simp add: service_failed_def)
  from run_keeps_blocked [OF inv_f 3 assms(5,6,7)]
  obtain ctx' agent' where "running_context c' = Some ctx'" and "(k, agent') \<in> set (waiting_agents ctx')"
    unfolding c'_def by blast
  then have 4: "k \<in> set (waiting_names c')"
    by (force simp: waiting_names_def)
  with inv_launched_not_waiting(2) [OF inv'] have 5: "k \<notin> set (launched c')" by blast
  have 6: "start_next m (service_failed n c) = (fst (start_next m c), service_failed n (snd (start_next m c)))" for m
    unfolding service_failed_def by (rule start_next_failed)
  from 1 2 3 4 5 6 show ?thesis
    by blast
qed

lemma load_four:
  "load_definitions
     [\<lparr>name = ''db'', dependencies = []\<rparr>, \<lparr>name = ''cache'', dependencies = []\<rparr>,
      \<lparr>name = ''api'', dependencies = [''db'']\<rparr>, \<lparr>name = ''web'', dependencies = [''cache'']\<rparr>] [] =
   Some (None, [(''db'', \<lparr>name = ''db'', dependencies = []\<rparr>),
                (''cache'', \<lparr>name = ''cache'', dependencies = []\<rparr>),
                (''api'', \<lparr>name = ''api'', dependencies = [''db'']\<rparr>),
                (''web'', \<lparr>name = ''web'', dependencies = [''cache'']\<rparr>)])"
  by (simp add: load_definitions_def counter_incr_def counter_get_def
      check_circular_dependencies_def go_up_dependencies_def)

theorem service_failed_blocks_dependents_witness:
  "failed (run (service_failed ''db'' (run (start_all_launch (ServiceCollection\<lparr>all_by_name :=
       [(''db'', \<lparr>name = ''db'', dependencies = []\<rparr>),
        (''cache'', \<lparr>name = ''cache'', dependencies = []\<rparr>),
        (''api'', \<lparr>name = ''api'', dependencies = [''db'']\<rparr>),
        (''web'', \<lparr>name = ''web'', dependencies = [''cache'']\<rparr>)]\<rparr>)) [])) [Started ''cache'']) \<and>
   ''api'' \<in> set (waiting_names (run (service_failed ''db'' (run (start_all_launch (ServiceCollection\<lparr>all_by_name :=
       [(''db'', \<lparr>name = ''db'', dependencies = []\<rparr>),
        (''cache'', \<lparr>name = ''cache'', dependencies = []\<rparr>),
        (''api'', \<lparr>name = ''api'', dependencies = [''db'']\<rparr>),
        (''web'', \<lparr>name = ''web'', dependencies = [''cache'']\<rparr>)]\<rparr>)) [])) [Started ''cache''])) \<and>
   ''api'' \<notin> set (launched (run (service_failed ''db'' (run (start_all_launch (ServiceCollection\<lparr>all_by_name :=
       [(''db'', \<lparr>name = ''db'', dependencies = []\<rparr>),
        (''cache'', \<lparr>name = ''cache'', dependencies = []\<rparr>),
        (''api'', \<lparr>name = ''api'', dependencies = [''db'']\<rparr>),
        (''web'', \<lparr>name = ''web'', dependencies = [''cache'']\<rparr>)]\<rparr>)) [])) [Started ''cache'']))"
proof -
  let ?reg = "[(''db'', \<lparr>name = ''db'', dependencies = []\<rparr>),
        (''cache'', \<lparr>name = ''cache'', dependencies = []\<rparr>),
        (''api'', \<lparr>name = ''api'', dependencies = [''db'']\<rparr>),
        (''web'', \<lparr>name = ''web'', dependencies = [''cache'']\<rparr>)]"
  let ?api = "\<lparr>agent_service = \<lparr>name = ''api'', dependencies = [''db'']\<rparr>, open_dependencies = [''db'']\<rparr>"
  have ctx: "running_context (run (start_all_launch (ServiceCollection\<lparr>all_by_name := ?reg\<rparr>)) []) =
      Some (RunningContext ?reg)"
    by (simp add: start_all_launch_def start_agents_def Let_def)
  have waiting: "(''api'', ?api) \<in> set (waiting_agents (RunningContext ?reg))"
    by (simp add: RunningContext_def ServiceAgent_def can_start_def)
  have dep: "''db'' \<in> set (open_dependencies ?api)" by simp
  have quiet: "Started ''db'' \<notin> set [Started ''cache'']" by simp
  from service_failed_blocks_dependents [OF load_four ctx waiting dep quiet, where n = "''db''"]
  show ?thesis by blast
qed

text \<open>
  Against C3 as stated: \<open>x\<close> and \<open>y\<close> are launched by \<^verbatim>\<open>start_all\<close>; \<open>x\<close> fails, then \<open>y\<close>
  completes, and \<^verbatim>\<open>start_next\<close> launches \<open>z\<close> although \<^verbatim>\<open>failed\<close> is set.
\<close>

theorem service_failed_blocks_dependents_counterexample:
  "failed (service_failed ''x'' (start_all_launch (ServiceCollection\<lparr>all_by_name :=
       [(''x'', \<lparr>name = ''x'', dependencies = []\<rparr>), (''y'', \<lparr>name = ''y'', dependencies = []\<rparr>),
        (''z'', \<lparr>name = ''z'', dependencies = [''y'']\<rparr>)]\<rparr>))) \<and>
   launched (service_failed ''x'' (start_all_launch (ServiceCollection\<lparr>all_by_name :=
       [(''x'', \<lparr>name = ''x'', dependencies = []\<rparr>), (''y'', \<lparr>name = ''y'', dependencies = []\<rparr>),
        (''z'', \<lparr>name = ''z'', dependencies = [''y'']\<rparr>)]\<rparr>))) = [''x'', ''y''] \<and>
   launched (run (service_failed ''x'' (start_all_launch (ServiceCollection\<lparr>all_by_name :=
       [(''x'', \<lparr>name = ''x'', dependencies = []\<rparr>), (''y'', \<lparr>name = ''y'', dependencies = []\<rparr>),
        (''z'', \<lparr>name = ''z'', dependencies = [''y'']\<rparr>)]\<rparr>))) [Started ''y'']) = [''x'', ''y'', ''z'']"
  by (simp add: run_simps)

subsection \<open>done\<close>

lemma step_running_context:
  "running_context c \<noteq> None \<Longrightarrow> running_context (step c e) \<noteq> None"
  by (cases e)
    (auto simp: start_next_def start_agents_def service_failed_def
      split: option.split prod.split sum.split)

lemma run_running_context:
  "running_context c \<noteq> None \<Longrightarrow> running_context (run c events) \<noteq> None"
proof (induction events arbitrary: c)
  case Nil
  then show ?case by simp
next
  case (Cons e events)
  from Cons.prems have "running_context (step c e) \<noteq> None" by (rule step_running_context)
  then have "running_context (run (step c e) events) \<noteq> None" by (rule Cons.IH)
  then show ?case by simp
qed

text \<open>
  C9. In every state that a run reaches after \<^verbatim>\<open>start_all\<close> has built the context, \<^verbatim>\<open>done\<close>
  holds exactly when no agent is waiting. \<^verbatim>\<open>service_failed\<close> leaves the context alone, so
  after a failure with agents still waiting \<^verbatim>\<open>failed\<close> is set and \<^verbatim>\<open>done\<close> is not.
\<close>

theorem done_iff_no_waiting_agents:
  "\<exists>ctx. running_context (run (start_all_launch c0) events) = Some ctx \<and>
     (done_property ctx \<longleftrightarrow> set (waiting_agents ctx) = {}) \<and>
     failed (service_failed n (run (start_all_launch c0) events)) \<and>
     running_context (service_failed n (run (start_all_launch c0) events)) = Some ctx \<and>
     (set (waiting_agents ctx) \<noteq> {} \<longrightarrow> \<not> done_property ctx)"
proof -
  have "running_context (start_all_launch c0) \<noteq> None"
    by (simp add: start_all_launch_def start_agents_def Let_def)
  then have "running_context (run (start_all_launch c0) events) \<noteq> None"
    by (rule run_running_context)
  then obtain ctx where "running_context (run (start_all_launch c0) events) = Some ctx"
    by blast
  then show ?thesis
    by (simp add: done_property_def service_failed_def)
qed

theorem done_iff_no_waiting_agents_witness:
  "\<exists>ctx. running_context (service_failed ''db'' (run (start_all_launch (ServiceCollection\<lparr>all_by_name :=
       [(''db'', \<lparr>name = ''db'', dependencies = []\<rparr>),
        (''api'', \<lparr>name = ''api'', dependencies = [''db'']\<rparr>)]\<rparr>)) [])) = Some ctx \<and>
     failed (service_failed ''db'' (run (start_all_launch (ServiceCollection\<lparr>all_by_name :=
       [(''db'', \<lparr>name = ''db'', dependencies = []\<rparr>),
        (''api'', \<lparr>name = ''api'', dependencies = [''db'']\<rparr>)]\<rparr>)) [])) \<and>
     map fst (waiting_agents ctx) = [''api''] \<and> \<not> done_property ctx"
proof -
  let ?reg = "[(''db'', \<lparr>name = ''db'', dependencies = []\<rparr>),
        (''api'', \<lparr>name = ''api'', dependencies = [''db'']\<rparr>)]"
  let ?c = "service_failed ''db'' (run (start_all_launch (ServiceCollection\<lparr>all_by_name := ?reg\<rparr>)) [])"
  from done_iff_no_waiting_agents [of "ServiceCollection\<lparr>all_by_name := ?reg\<rparr>" "[]" "''db''"]
  obtain ctx where all: "running_context (run (start_all_launch (ServiceCollection\<lparr>all_by_name := ?reg\<rparr>)) []) = Some ctx \<and>
     (done_property ctx \<longleftrightarrow> set (waiting_agents ctx) = {}) \<and>
     failed ?c \<and> running_context ?c = Some ctx \<and>
     (set (waiting_agents ctx) \<noteq> {} \<longrightarrow> \<not> done_property ctx)"
    by (rule exE)
  from all have failed: "failed ?c" by (elim conjE)
  from all have ctx: "running_context ?c = Some ctx" by (elim conjE)
  from all have blocked: "set (waiting_agents ctx) \<noteq> {} \<longrightarrow> \<not> done_property ctx"
    by (elim conjE)
  have "running_context ?c = Some (RunningContext ?reg)"
    by (simp add: start_all_launch_def start_agents_def service_failed_def ServiceCollection_def Let_def)
  with ctx have "ctx = RunningContext ?reg"
    by simp
  then have w: "map fst (waiting_agents ctx) = [''api'']"
    by (simp add: RunningContext_def ServiceAgent_def can_start_def)
  then have "waiting_agents ctx \<noteq> []" by auto
  then have "set (waiting_agents ctx) \<noteq> {}" by (simp only: set_empty not_False_eq_True)
  with blocked have "\<not> done_property ctx" by (rule mp)
  with ctx failed w show ?thesis by (intro exI [of _ ctx] conjI)
qed

subsection \<open>What the driver reports\<close>

lemma start_all_returns_None:
  "start_all c events = Some (r, c') \<Longrightarrow> r = None"
  by (auto simp: start_all_def split: option.splits)

lemma start_services_never_reports:
  "start_services services exclude events \<noteq> Some (Inr names)"
  by (auto simp: start_services_def start_all_def split: option.splits prod.splits)

text \<open>
  C2. \<^verbatim>\<open>start_all\<close> has no \<^verbatim>\<open>return\<close> statement, so the driver receives \<^verbatim>\<open>None\<close> and the
  \<^verbatim>\<open>join\<close> over it raises \<^verbatim>\<open>TypeError\<close>: no run reports the started services. Here is a run
  in which every agent completes.
\<close>

theorem start_services_raises_TypeError:
  "start_services
     [\<lparr>name = ''db'', dependencies = []\<rparr>, \<lparr>name = ''api'', dependencies = [''db'']\<rparr>,
      \<lparr>name = ''web'', dependencies = [''api'']\<rparr>] []
     [Started ''db'', Started ''api'', Started ''web''] = Some (Inl TypeError)"
  by (simp add: start_services_def start_all_def load_three done_property_def run_simps)

end
